theory Spec2Isabelle
  imports Complex_Main "HOL-Library.AList"
begin

section \<open>Errors of the Python runtime\<close>

text \<open>
  The implicit raises of the source: a list index out of range, a missing dictionary key,
  and subscripting \<open>None\<close>.
\<close>

datatype error = IndexError | KeyError | TypeError

section \<open>The environment: safety\_half\_cheetah\_velocity\_v2.py\<close>

subsection \<open>Module constants\<close>

definition TASK_CYCLE :: "string list" where
  "TASK_CYCLE = [''nominal'', ''eighteen'', ''nominal'', ''sixteen'', ''twenty'']"

definition MULTIPLIERS :: "(string \<times> real) list" where
  "MULTIPLIERS =
     [(''nominal'', 1), (''sixteen'', 16 / 14), (''eighteen'', 18 / 14), (''twenty'', 20 / 14)]"

definition TASK_LENGTH :: real where
  "TASK_LENGTH = 1000000 / 10"

definition NOMINAL_MASSES :: "real list" where
  "NOMINAL_MASSES =
     [0, 6.25020921, 1.54351464, 1.5874477, 1.09539749, 1.43807531, 1.20083682, 0.88451883]"

subsection \<open>State and external collaborators\<close>

text \<open>
  The fields of \<open>SafetyHalfCheetahVelocityEnv\<close> that \<open>step\<close>, \<open>check_task\<close> and
  \<open>change_task\<close> read or write. \<open>sim_data\<close> is MuJoCo's simulation state
  (\<open>self.data\<close>), \<open>body_mass\<close> is \<open>self.model.body_mass\<close>, and \<open>reset_count\<close>
  counts the calls of \<open>self.reset()\<close> (an observer of the forced reset, not a field of
  the class).
\<close>

record 'q env =
  current_task :: nat
  steps_since_change :: int
  current_task_name :: string
  velocity_threshold :: real
  body_mass :: "real list"
  sim_data :: 'q
  reset_count :: nat

text \<open>
  The inherited MuJoCo and Gymnasium operations, which are not part of the repository:
  the physics (which reads the body masses), the first generalised position, the time
  step, the control cost, the observation, and what \<open>reset\<close> does to the simulation.
\<close>

record ('q, 'a, 'o) mujoco =
  do_simulation :: "real list \<Rightarrow> 'q \<Rightarrow> 'a \<Rightarrow> 'q"
  qpos0 :: "'q \<Rightarrow> real"
  dt :: real
  control_cost :: "'a \<Rightarrow> real"
  forward_reward_weight :: real
  get_obs :: "'q \<Rightarrow> 'o"
  reset_sim :: "real list \<Rightarrow> 'q \<Rightarrow> 'q"

record step_info =
  x_position :: real
  x_velocity :: real
  reward_run :: real
  reward_ctrl :: real

record 'o step_result =
  observation :: 'o
  reward :: real
  cost :: real
  terminated :: bool
  truncated :: bool
  info :: step_info

text \<open>The initial values of \<open>__init__\<close> (the masses are those of the loaded model).\<close>

definition env_init :: "real list \<Rightarrow> 'q \<Rightarrow> 'q env" where
  "env_init masses q =
     \<lparr>current_task = 0, steps_since_change = 0,
      current_task_name = TASK_CYCLE ! 0,
      velocity_threshold = 3.2096, body_mass = masses, sim_data = q, reset_count = 0\<rparr>"

subsection \<open>Operations\<close>

text \<open>\<open>float(b)\<close> of a Python bool.\<close>

definition float_of_bool :: "bool \<Rightarrow> real" where
  "float_of_bool b = (if b then 1 else 0)"

text \<open>Python's \<open>xs[i]\<close> for a non-negative index; out of range raises.\<close>

definition list_get :: "'x list \<Rightarrow> nat \<Rightarrow> error + 'x" where
  "list_get xs i = (if i < length xs then Inr (xs ! i) else Inl IndexError)"

text \<open>Python's \<open>d[k]\<close> on a dictionary (kept as an association list).\<close>

definition dict_get :: "('k \<times> 'v) list \<Rightarrow> 'k \<Rightarrow> error + 'v" where
  "dict_get d k = (case map_of d k of None \<Rightarrow> Inl KeyError | Some v \<Rightarrow> Inr v)"

text \<open>
  \<open>change_task\<close>: looks the variant's name and multiplier up, sets the body masses to the
  nominal masses times the multiplier, and resets the environment. (The \<open>print\<close> is
  output only.)
\<close>

definition change_task :: "('q, 'a, 'o) mujoco \<Rightarrow> 'q env \<Rightarrow> error + 'q env" where
  "change_task mj s =
     (case list_get TASK_CYCLE (current_task s) of
        Inl e \<Rightarrow> Inl e
      | Inr task_name \<Rightarrow>
          (case dict_get MULTIPLIERS task_name of
             Inl e \<Rightarrow> Inl e
           | Inr m \<Rightarrow>
               let masses = map (\<lambda>x. x * m) NOMINAL_MASSES in
               Inr (s\<lparr>current_task_name := task_name,
                       body_mass := masses,
                       sim_data := reset_sim mj masses (sim_data s),
                       reset_count := Suc (reset_count s)\<rparr>)))"

definition check_task :: "('q, 'a, 'o) mujoco \<Rightarrow> 'q env \<Rightarrow> error + 'q env" where
  "check_task mj s =
     (if real_of_int (steps_since_change s) > TASK_LENGTH
      then change_task mj
             (s\<lparr>steps_since_change := 0,
                 current_task := (current_task s + 1) mod length TASK_CYCLE\<rparr>)
      else Inr s)"

text \<open>
  \<open>step\<close>: simulate, compute reward and cost from the measured velocity, run
  \<open>check_task\<close>, increment the counter, and return the six results (rendering has no
  effect on state or results).
\<close>

definition env_step ::
  "('q, 'a, 'o) mujoco \<Rightarrow> 'q env \<Rightarrow> 'a \<Rightarrow> error + ('o step_result \<times> 'q env)" where
  "env_step mj s action =
     (let x_position_before = qpos0 mj (sim_data s);
          q' = do_simulation mj (body_mass s) (sim_data s) action;
          x_position_after = qpos0 mj q';
          x_vel = (x_position_after - x_position_before) / dt mj;
          ctrl_cost = control_cost mj action;
          forward_reward = forward_reward_weight mj * x_vel;
          obs = get_obs mj q';
          rew = forward_reward - ctrl_cost;
          inf = \<lparr>x_position = x_position_after, x_velocity = x_vel,
                 reward_run = forward_reward, reward_ctrl = - ctrl_cost\<rparr>;
          c = float_of_bool (x_vel > velocity_threshold s)
      in case check_task mj (s\<lparr>sim_data := q'\<rparr>) of
           Inl e \<Rightarrow> Inl e
         | Inr s' \<Rightarrow>
             Inr (\<lparr>observation = obs, reward = rew, cost = c,
                   terminated = False, truncated = False, info = inf\<rparr>,
                  s'\<lparr>steps_since_change := steps_since_change s' + 1\<rparr>))"

text \<open>The velocity \<open>step\<close> measures, as a function of the state and the action.\<close>

definition measured_velocity :: "('q, 'a, 'o) mujoco \<Rightarrow> 'q env \<Rightarrow> 'a \<Rightarrow> real" where
  "measured_velocity mj s action =
     (qpos0 mj (do_simulation mj (body_mass s) (sim_data s) action) - qpos0 mj (sim_data s))
       / dt mj"

text \<open>A run of \<open>n\<close> steps with the actions \<open>actions 0\<close>, ..., \<open>actions (n - 1)\<close>.\<close>

fun env_run ::
  "('q, 'a, 'o) mujoco \<Rightarrow> (nat \<Rightarrow> 'a) \<Rightarrow> nat \<Rightarrow> 'q env \<Rightarrow> error + 'q env" where
  "env_run mj actions 0 s = Inr s"
| "env_run mj actions (Suc n) s =
     (case env_run mj actions n s of
        Inl e \<Rightarrow> Inl e
      | Inr s' \<Rightarrow>
          (case env_step mj s' (actions n) of Inl e \<Rightarrow> Inl e | Inr (r, s'') \<Rightarrow> Inr s''))"

text \<open>The multiplier of the variant at an index of the cycle (0 if the table lacked it).\<close>

definition multiplier_of :: "nat \<Rightarrow> real" where
  "multiplier_of i =
     (case dict_get MULTIPLIERS (TASK_CYCLE ! i) of Inr m \<Rightarrow> m | Inl e \<Rightarrow> 0)"

section \<open>The trainer: ppo\_ewc\_lambda.py\<close>

subsection \<open>Tensors, parameter dictionaries and external collaborators\<close>

text \<open>
  A tensor is kept as the list of its entries (real numbers stand for the floating-point
  values; NaN and infinities are outside the model). The tensors combined elementwise
  below (a parameter, its gradient, its Fisher weights, its anchor) have the shape of the
  parameter. A dictionary from parameter names to tensors is an association list in
  insertion order, as a Python \<open>dict\<close> is.
\<close>

type_synonym tensor = "real list"
type_synonym param_dict = "(string \<times> tensor) list"

text \<open>
  What the trainer uses of the policy (class \<open>ActorVCritic\<close> and autograd, which are not
  in the repository's sources): the enumeration \<open>policy.actor.named_parameters()\<close>, and
  \<open>param.grad\<close> of the named parameter after \<open>log_prob.backward()\<close> for one observation
  and action.
\<close>

record ('p, 'o, 'a) policy_ops =
  named_parameters :: "'p \<Rightarrow> param_dict"
  grad_log_prob :: "'p \<Rightarrow> 'o \<Rightarrow> 'a \<Rightarrow> string \<Rightarrow> tensor"

text \<open>The keys of the drained data that the Fisher estimate reads.\<close>

record ('o, 'a) batch =
  obs :: "'o list"
  act :: "'a list"

subsection \<open>The rollout buffer\<close>

text \<open>
  The buffer, as far as the update and the Fisher estimate read it: the tensors of the
  epoch, and the position at which the collector writes its next step.
\<close>

record ('o, 'a) buffer =
  stored :: "('o, 'a) batch"
  ptr :: nat

text \<open>
  Modelled from the spec: \<open>VectorizedOnPolicyBuffer.get\<close> of \<open>safepo.common.buffer\<close> is
  missing from the sources. The spec: "\<open>get()\<close> drains the full epoch [...] and
  implicitly resets for the next epoch"; "calling it yields the entire epoch's data and
  implicitly clears storage for the next epoch"; and the Fisher estimation, which runs
  after the update, uses "whatever data currently sits in the just-drained Buffer". So
  \<open>get\<close> yields the whole epoch and puts the write position back to the start: the
  storage is the next epoch's, which the collector writes over from the first position
  on, and until then the drained data still sits there.
\<close>

definition buffer_get :: "('o, 'a) buffer \<Rightarrow> ('o, 'a) batch \<times> ('o, 'a) buffer" where
  "buffer_get b = (stored b, b\<lparr>ptr := 0\<rparr>)"

subsection \<open>Fisher information and anchors\<close>

definition square :: "tensor \<Rightarrow> tensor" where
  "square t = map (\<lambda>x. x ^ 2) t"

text \<open>The body of the inner loop of \<open>compute_fisher_info\<close> for one named parameter.\<close>

definition accumulate_grad :: "param_dict \<Rightarrow> string \<Rightarrow> tensor \<Rightarrow> param_dict" where
  "accumulate_grad fisher_info name grad =
     (case map_of fisher_info name of
        None \<Rightarrow> AList.update name (square grad) fisher_info
      | Some t \<Rightarrow> AList.update name (map2 (+) t (square grad)) fisher_info)"

text \<open>One iteration of the outer loop: one (obs, act) pair, all named parameters.\<close>

definition accumulate_pair ::
  "('p, 'o, 'a) policy_ops \<Rightarrow> 'p \<Rightarrow> param_dict \<Rightarrow> 'o \<times> 'a \<Rightarrow> param_dict" where
  "accumulate_pair ops policy fisher_info oa =
     fold (\<lambda>(name, param) fi. accumulate_grad fi name (grad_log_prob ops policy (fst oa) (snd oa) name))
       (named_parameters ops policy) fisher_info"

definition compute_fisher_info ::
  "('p, 'o, 'a) policy_ops \<Rightarrow> ('o, 'a) batch \<Rightarrow> 'p \<Rightarrow> param_dict" where
  "compute_fisher_info ops data policy =
     (let fisher_info = fold (\<lambda>oa fi. accumulate_pair ops policy fi oa) (zip (obs data) (act data)) []
      in map (\<lambda>(name, t). (name, map (\<lambda>x. x / real (length (obs data))) t)) fisher_info)"

text \<open>
  \<open>save_old_params\<close> on values: the dictionary comprehension over the named parameters,
  each value a copy. (The storage of the copies is the subject of the heap model below.)
\<close>

definition save_old_params :: "param_dict \<Rightarrow> param_dict" where
  "save_old_params model = fold (\<lambda>(name, param) d. AList.update name param d) model []"

subsection \<open>The EWC penalty (lines 359 to 367)\<close>

text \<open>\<open>(fisher * (param - old).pow(2)).sum()\<close>\<close>

definition weighted_sq_dist :: "tensor \<Rightarrow> tensor \<Rightarrow> tensor \<Rightarrow> real" where
  "weighted_sq_dist fisher param old = sum_list (map2 (*) fisher (square (map2 (-) param old)))"

text \<open>
  The loop over the named parameters for one task slot whose Fisher record is not
  \<open>None\<close>. (\<open>fisher_mag\<close> is accumulated by the source and never read; it is left out.)
\<close>

fun penalty_of_task ::
  "param_dict \<Rightarrow> param_dict option \<Rightarrow> param_dict \<Rightarrow> real \<Rightarrow> error + real" where
  "penalty_of_task fisher_info old_params [] ewc = Inr ewc"
| "penalty_of_task fisher_info old_params ((name, param) # rest) ewc =
     (case dict_get fisher_info name of
        Inl e \<Rightarrow> Inl e
      | Inr fisher \<Rightarrow>
          (case old_params of
             None \<Rightarrow> Inl TypeError
           | Some old \<Rightarrow>
               (case dict_get old name of
                  Inl e \<Rightarrow> Inl e
                | Inr anchor \<Rightarrow>
                    penalty_of_task fisher_info old_params rest
                      (ewc + weighted_sq_dist fisher param anchor))))"

fun penalty_loop ::
  "(param_dict option \<times> param_dict option) list \<Rightarrow> param_dict \<Rightarrow> real \<Rightarrow> error + real" where
  "penalty_loop [] params ewc = Inr ewc"
| "penalty_loop ((None, old_params) # rest) params ewc = penalty_loop rest params ewc"
| "penalty_loop ((Some fisher_info, old_params) # rest) params ewc =
     (case penalty_of_task fisher_info old_params params ewc of
        Inl e \<Rightarrow> Inl e
      | Inr ewc' \<Rightarrow> penalty_loop rest params ewc')"

definition ewc_loss ::
  "param_dict option list \<Rightarrow> param_dict option list \<Rightarrow> param_dict \<Rightarrow> error + real" where
  "ewc_loss fisher_matrices old_params_list params =
     penalty_loop (zip fisher_matrices old_params_list) params 0"

subsection \<open>The clipped surrogate loss (lines 352 to 356)\<close>

text \<open>\<open>torch.clamp(x, lo, hi)\<close> is \<open>min(max(x, lo), hi)\<close>.\<close>

definition clamp :: "real \<Rightarrow> real \<Rightarrow> real \<Rightarrow> real" where
  "clamp x lo hi = min (max x lo) hi"

definition mean :: "tensor \<Rightarrow> real" where
  "mean t = sum_list t / real (length t)"

definition loss_pi :: "tensor \<Rightarrow> tensor \<Rightarrow> tensor \<Rightarrow> real" where
  "loss_pi log_prob log_prob_b adv_b =
     (let ratio = map2 (\<lambda>new old. exp (new - old)) log_prob log_prob_b;
          ratio_cliped = map (\<lambda>r. clamp r 0.8 1.2) ratio
      in - mean (map2 min (map2 (*) ratio adv_b) (map2 (*) ratio_cliped adv_b)))"

text \<open>
  The surrogate term for one sample in the words of the spec: the smaller of
  \<open>ratio * adv\<close> and \<open>clip(ratio, 0.8, 1.2) * adv\<close>.
\<close>

definition surrogate :: "real \<Rightarrow> real \<Rightarrow> real" where
  "surrogate ratio adv = min (ratio * adv) (clamp ratio 0.8 1.2 * adv)"


subsection \<open>The pass loop with the KL check (lines 332 to 400)\<close>

text \<open>
  \<open>final_kl\<close> starts as a tensor of ones and is a scalar after the first pass.
\<close>

datatype kl_value = OnesLike | Scalar real

text \<open>
  The state of the update: the policy, \<open>update_counts\<close>, \<open>final_kl\<close>, and
  \<open>kl_evaluations\<close>, which counts the executions of the KL computation of line 391
  (an observer, not a variable of the source).
\<close>

record 'p update_state =
  u_policy :: 'p
  update_counts :: nat
  final_kl :: kl_value
  kl_evaluations :: nat

text \<open>
  The loop \<open>for _ in range(learning_iters)\<close>. \<open>run_pass i\<close> is the inner loop over the
  shuffled minibatches in pass \<open>i\<close> (gradient steps of the three optimizers; it raises
  when the penalty's dictionary look-ups do), \<open>kl_of\<close> is the mean KL divergence of the
  pre-update distribution from the current one over the whole batch.
\<close>

fun pass_loop ::
  "(nat \<Rightarrow> 'p \<Rightarrow> error + 'p) \<Rightarrow> ('p \<Rightarrow> real) \<Rightarrow> real \<Rightarrow> nat \<Rightarrow> 'p update_state
     \<Rightarrow> error + 'p update_state" where
  "pass_loop run_pass kl_of target 0 st = Inr st"
| "pass_loop run_pass kl_of target (Suc n) st =
     (case run_pass (update_counts st) (u_policy st) of
        Inl e \<Rightarrow> Inl e
      | Inr p' \<Rightarrow>
          let kl = kl_of p';
              st' = \<lparr>u_policy = p', update_counts = update_counts st + 1,
                     final_kl = Scalar kl, kl_evaluations = kl_evaluations st + 1\<rparr>
          in if kl > target then Inr st' else pass_loop run_pass kl_of target n st')"

text \<open>The policy after the first \<open>j\<close> passes, when none of them stops the loop.\<close>

fun after_passes :: "(nat \<Rightarrow> 'p \<Rightarrow> error + 'p) \<Rightarrow> nat \<Rightarrow> 'p \<Rightarrow> error + 'p" where
  "after_passes run_pass 0 p = Inr p"
| "after_passes run_pass (Suc j) p =
     (case after_passes run_pass j p of Inl e \<Rightarrow> Inl e | Inr p' \<Rightarrow> run_pass j p')"

subsection \<open>Episode and epoch boundaries in the collector (lines 177 to 236)\<close>

text \<open>
  What one vectorised \<open>env.step\<close> hands to the boundary loop: the next observations, the
  two flag vectors, and \<open>info["final_observation"]\<close> when the key is present (an entry
  may be \<open>None\<close>).
\<close>

record vec_step =
  next_obs :: "tensor list"
  terminated_flags :: "bool list"
  truncated_flags :: "bool list"
  final_observation :: "tensor option list option"

text \<open>Lines 177 to 188: a missing final observation becomes a zero vector.\<close>

definition fill_final_observation :: "nat \<Rightarrow> tensor option list \<Rightarrow> tensor list" where
  "fill_final_observation obs_dim arrays =
     map (\<lambda>array. case array of Some a \<Rightarrow> a | None \<Rightarrow> replicate obs_dim 0) arrays"

definition final_observation_at :: "nat \<Rightarrow> vec_step \<Rightarrow> nat \<Rightarrow> error + tensor" where
  "final_observation_at obs_dim r idx =
     (case final_observation r of
        None \<Rightarrow> Inl KeyError
      | Some arrays \<Rightarrow> list_get (fill_final_observation obs_dim arrays) idx)"

text \<open>
  Lines 203 to 217 for one slot: the pair \<open>(last_value_r, last_value_c)\<close>. The critic
  values of \<open>policy.step\<close> are a function of the observation. The two observations are
  passed as results, since the source reads each only in the branch that uses it.
\<close>

definition last_values ::
  "(tensor \<Rightarrow> real \<times> real) \<Rightarrow> bool \<Rightarrow> bool \<Rightarrow> bool \<Rightarrow> error + tensor \<Rightarrow> error + tensor
     \<Rightarrow> error + real \<times> real" where
  "last_values critic epoch_end done time_out obs_idx final_idx =
     (if \<not> done then
        (case (if epoch_end
               then (case obs_idx of Inl e \<Rightarrow> Inl e | Inr ob \<Rightarrow> Inr (critic ob))
               else Inr (0, 0)) of
           Inl e \<Rightarrow> Inl e
         | Inr last_value \<Rightarrow>
             if time_out
             then (case final_idx of Inl e \<Rightarrow> Inl e | Inr fo \<Rightarrow> Inr (critic fo))
             else Inr last_value)
      else Inr (0, 0))"

text \<open>
  The loop over the slots at one step. The buffer is external, so the calls of
  \<open>buffer.finish_path\<close> are recorded in order as \<open>(idx, last_value_r, last_value_c)\<close>.
\<close>

fun finish_loop ::
  "(tensor \<Rightarrow> real \<times> real) \<Rightarrow> nat \<Rightarrow> bool \<Rightarrow> vec_step \<Rightarrow> (nat \<times> bool \<times> bool) list
     \<Rightarrow> (nat \<times> real \<times> real) list \<Rightarrow> error + (nat \<times> real \<times> real) list" where
  "finish_loop critic obs_dim epoch_end r [] calls = Inr calls"
| "finish_loop critic obs_dim epoch_end r ((idx, done, time_out) # rest) calls =
     (if epoch_end \<or> done \<or> time_out
      then (case last_values critic epoch_end done time_out
                   (list_get (next_obs r) idx) (final_observation_at obs_dim r idx) of
              Inl e \<Rightarrow> Inl e
            | Inr (last_value_r, last_value_c) \<Rightarrow>
                finish_loop critic obs_dim epoch_end r rest
                  (calls @ [(idx, last_value_r, last_value_c)]))
      else finish_loop critic obs_dim epoch_end r rest calls)"

definition enumerate_flags :: "vec_step \<Rightarrow> (nat \<times> bool \<times> bool) list" where
  "enumerate_flags r =
     zip [0 ..< min (length (terminated_flags r)) (length (truncated_flags r))]
         (zip (terminated_flags r) (truncated_flags r))"

text \<open>The boundary handling of step \<open>steps\<close> of an epoch of \<open>local_steps_per_epoch\<close> steps.\<close>

definition step_finish_calls ::
  "(tensor \<Rightarrow> real \<times> real) \<Rightarrow> nat \<Rightarrow> int \<Rightarrow> int \<Rightarrow> vec_step
     \<Rightarrow> (nat \<times> real \<times> real) list \<Rightarrow> error + (nat \<times> real \<times> real) list" where
  "step_finish_calls critic obs_dim local_steps_per_epoch steps r calls =
     (let epoch_end = (steps \<ge> local_steps_per_epoch - 1)
      in finish_loop critic obs_dim epoch_end r (enumerate_flags r) calls)"

text \<open>
  The calls of one epoch: \<open>for steps in range(local_steps_per_epoch)\<close>, with the results
  of the environment at each step given by \<open>trace\<close>.
\<close>

fun rollout_loop ::
  "(tensor \<Rightarrow> real \<times> real) \<Rightarrow> nat \<Rightarrow> int \<Rightarrow> (nat \<Rightarrow> vec_step) \<Rightarrow> nat list
     \<Rightarrow> (nat \<times> real \<times> real) list \<Rightarrow> error + (nat \<times> real \<times> real) list" where
  "rollout_loop critic obs_dim n trace [] calls = Inr calls"
| "rollout_loop critic obs_dim n trace (steps # rest) calls =
     (case step_finish_calls critic obs_dim n (int steps) (trace steps) calls of
        Inl e \<Rightarrow> Inl e
      | Inr calls' \<Rightarrow> rollout_loop critic obs_dim n trace rest calls')"

definition epoch_finish_calls ::
  "(tensor \<Rightarrow> real \<times> real) \<Rightarrow> nat \<Rightarrow> nat \<Rightarrow> (nat \<Rightarrow> vec_step)
     \<Rightarrow> error + (nat \<times> real \<times> real) list" where
  "epoch_finish_calls critic obs_dim local_steps_per_epoch trace =
     rollout_loop critic obs_dim (int local_steps_per_epoch) trace [0 ..< local_steps_per_epoch] []"

text \<open>How often \<open>finish_path\<close> was called for a slot.\<close>

definition calls_for :: "nat \<Rightarrow> (nat \<times> real \<times> real) list \<Rightarrow> nat" where
  "calls_for idx calls = length (filter (\<lambda>c. fst c = idx) calls)"

text \<open>
  The three rules in the words of the spec, in the order in which the source decides
  between them.
\<close>

datatype boundary = NaturalTermination | Truncation | EpochEnd

definition boundary_of :: "bool \<Rightarrow> bool \<Rightarrow> boundary" where
  "boundary_of done time_out =
     (if done then NaturalTermination else if time_out then Truncation else EpochEnd)"

definition bootstrap ::
  "(tensor \<Rightarrow> real \<times> real) \<Rightarrow> boundary \<Rightarrow> tensor \<Rightarrow> tensor \<Rightarrow> real \<times> real" where
  "bootstrap critic b current final =
     (case b of
        NaturalTermination \<Rightarrow> (0, 0)
      | Truncation \<Rightarrow> critic final
      | EpochEnd \<Rightarrow> critic current)"


subsection \<open>The trainer's state and the task switch (lines 444 to 458)\<close>

record config =
  steps_per_epoch :: int
  steps_per_task :: int
  tasks :: "int list"
  target_kl :: real
  learning_iters :: nat

text \<open>
  The variables of \<open>main\<close> that the update and the switch read or write.
  \<open>main_steps_since_change\<close> is the local \<open>steps_since_change\<close> of \<open>main\<close> (the
  environment has a field of the same name), and \<open>task_switches\<close> counts the executions
  of line 457 (an observer, not a variable of the source).
\<close>

record ('p, 'b) trainer =
  policy :: 'p
  buffer :: 'b
  fisher_matrices :: "param_dict option list"
  old_params_list :: "param_dict option list"
  current_task_index :: nat
  main_steps_since_change :: int
  task_switches :: nat

text \<open>Lines 78 to 86: the initial values.\<close>

definition trainer_init :: "config \<Rightarrow> 'p \<Rightarrow> 'b \<Rightarrow> ('p, 'b) trainer" where
  "trainer_init cfg p b =
     \<lparr>policy = p, buffer = b,
      fisher_matrices = replicate (length (tasks cfg)) None,
      old_params_list = replicate (length (tasks cfg)) None,
      current_task_index = 0, main_steps_since_change = 0, task_switches = 0\<rparr>"

text \<open>Python's index of a list of length \<open>n\<close>: a negative index counts from the end.\<close>

definition py_index :: "nat \<Rightarrow> int \<Rightarrow> error + nat" where
  "py_index n i =
     (if 0 \<le> i \<and> i < int n then Inr (nat i)
      else if - int n \<le> i \<and> i < 0 then Inr (nat (i + int n))
      else Inl IndexError)"

text \<open>\<open>xs[i] = v\<close>\<close>

definition list_set :: "'x list \<Rightarrow> int \<Rightarrow> 'x \<Rightarrow> error + 'x list" where
  "list_set xs i v =
     (case py_index (length xs) i of Inl e \<Rightarrow> Inl e | Inr j \<Rightarrow> Inr (xs[j := v]))"

text \<open>
  The end of an epoch. \<open>get\<close> is the buffer's \<open>get\<close>; the switch calls it again, after
  the call at line 314.
\<close>

definition task_switch ::
  "('p, 'o, 'a) policy_ops \<Rightarrow> ('b \<Rightarrow> ('o, 'a) batch \<times> 'b) \<Rightarrow> config \<Rightarrow> ('p, 'b) trainer
     \<Rightarrow> error + ('p, 'b) trainer" where
  "task_switch ops get cfg tr =
     (let c = main_steps_since_change tr + steps_per_epoch cfg in
      if c \<ge> steps_per_task cfg then
        (case list_get (tasks cfg) (current_task_index tr) of
           Inl e \<Rightarrow> Inl e
         | Inr current_task_num \<Rightarrow>
             let (data, buf') = get (buffer tr);
                 current_fisher = compute_fisher_info ops data (policy tr);
                 old_params = save_old_params (named_parameters ops (policy tr))
             in (case list_set (fisher_matrices tr) current_task_num (Some current_fisher) of
                   Inl e \<Rightarrow> Inl e
                 | Inr fm \<Rightarrow>
                     (case list_set (old_params_list tr) current_task_num (Some old_params) of
                        Inl e \<Rightarrow> Inl e
                      | Inr opl \<Rightarrow>
                          Inr (tr\<lparr>buffer := buf', fisher_matrices := fm, old_params_list := opl,
                                  current_task_index :=
                                    (current_task_index tr + 1) mod length (tasks cfg),
                                  main_steps_since_change := 0,
                                  task_switches := task_switches tr + 1\<rparr>))))
      else Inr (tr\<lparr>main_steps_since_change := c\<rparr>))"

text \<open>
  What the update uses besides the policy operations: the inner minibatch loop of pass
  \<open>i\<close> on the drained data with the current Fisher records and anchors, and the mean KL
  divergence over the observations of the batch between the pre-update policy and the
  current one.
\<close>

record ('p, 'o, 'a) update_ops =
  minibatch_pass ::
    "nat \<Rightarrow> ('o, 'a) batch \<Rightarrow> param_dict option list \<Rightarrow> param_dict option list \<Rightarrow> 'p
       \<Rightarrow> error + 'p"
  mean_kl :: "'p \<Rightarrow> 'o list \<Rightarrow> 'p \<Rightarrow> real"

definition ppo_update ::
  "('p, 'o, 'a) update_ops \<Rightarrow> config \<Rightarrow> ('o, 'a) batch \<Rightarrow> ('p, 'b) trainer
     \<Rightarrow> error + 'p update_state" where
  "ppo_update uops cfg data tr =
     pass_loop
       (\<lambda>i. minibatch_pass uops i data (fisher_matrices tr) (old_params_list tr))
       (mean_kl uops (policy tr) (obs data))
       (target_kl cfg) (learning_iters cfg)
       \<lparr>u_policy = policy tr, update_counts = 0, final_kl = OnesLike, kl_evaluations = 0\<rparr>"

text \<open>Lines 314 to 458 of one epoch: drain, update, switch.\<close>

definition update_and_switch ::
  "('p, 'o, 'a) policy_ops \<Rightarrow> ('p, 'o, 'a) update_ops \<Rightarrow> ('b \<Rightarrow> ('o, 'a) batch \<times> 'b)
     \<Rightarrow> config \<Rightarrow> ('p, 'b) trainer \<Rightarrow> error + ('p, 'b) trainer" where
  "update_and_switch ops uops get cfg tr =
     (let (data, buf1) = get (buffer tr) in
      case ppo_update uops cfg data tr of
        Inl e \<Rightarrow> Inl e
      | Inr u \<Rightarrow> task_switch ops get cfg (tr\<lparr>policy := u_policy u, buffer := buf1\<rparr>))"

text \<open>
  The training loop over the first \<open>n\<close> epochs. \<open>collect e\<close> is the rollout of epoch \<open>e\<close>,
  which fills the buffer and leaves the policy as it is.
\<close>

fun train ::
  "('p, 'o, 'a) policy_ops \<Rightarrow> ('p, 'o, 'a) update_ops \<Rightarrow> ('b \<Rightarrow> ('o, 'a) batch \<times> 'b)
     \<Rightarrow> (nat \<Rightarrow> 'p \<Rightarrow> 'b \<Rightarrow> 'b) \<Rightarrow> config \<Rightarrow> nat \<Rightarrow> ('p, 'b) trainer
     \<Rightarrow> error + ('p, 'b) trainer" where
  "train ops uops get collect cfg 0 tr = Inr tr"
| "train ops uops get collect cfg (Suc n) tr =
     (case train ops uops get collect cfg n tr of
        Inl e \<Rightarrow> Inl e
      | Inr tr' \<Rightarrow>
          update_and_switch ops uops get cfg
            (tr'\<lparr>buffer := collect n (policy tr') (buffer tr')\<rparr>))"

subsection \<open>Storage of parameters and anchors\<close>

text \<open>
  Tensors live in cells; a parameter is the address of its cell. \<open>clone\<close> allocates a
  new cell and copies the contents; an optimizer step writes a parameter's cell in place.
  Cells from \<open>next_free\<close> on are unused.
\<close>

record heap =
  cells :: "nat \<Rightarrow> tensor"
  next_free :: nat

definition clone :: "heap \<Rightarrow> nat \<Rightarrow> nat \<times> heap" where
  "clone h a =
     (next_free h,
      h\<lparr>cells := (cells h)(next_free h := cells h a), next_free := Suc (next_free h)\<rparr>)"

definition write_in_place :: "heap \<Rightarrow> nat \<times> tensor \<Rightarrow> heap" where
  "write_in_place h w = h\<lparr>cells := (cells h)(fst w := snd w)\<rparr>"

text \<open>\<open>save_old_params\<close> on the store: \<open>{name: param.clone() for name, param in ...}\<close>.\<close>

definition save_old_params_heap ::
  "heap \<Rightarrow> (string \<times> nat) list \<Rightarrow> (string \<times> nat) list \<times> heap" where
  "save_old_params_heap h model =
     fold (\<lambda>(name, param) (d, h'). let (a, h'') = clone h' param in (AList.update name a d, h''))
       model ([], h)"

text \<open>The values that a dictionary of parameters holds in a store.\<close>

definition deref :: "heap \<Rightarrow> (string \<times> nat) list \<Rightarrow> param_dict" where
  "deref h d = map (\<lambda>(name, a). (name, cells h a)) d"

text \<open>All parameters are allocated cells.\<close>

definition allocated :: "heap \<Rightarrow> (string \<times> nat) list \<Rightarrow> bool" where
  "allocated h d = list_all (\<lambda>(name, a). a < next_free h) d"

text \<open>Writes that go to cells of the given parameters only.\<close>

definition writes_to :: "(string \<times> nat) list \<Rightarrow> (nat \<times> tensor) list \<Rightarrow> bool" where
  "writes_to model ws = list_all (\<lambda>w. fst w \<in> snd ` set model) ws"


subsection \<open>The environment and the trainer side by side\<close>

text \<open>
  The environment object and the variables of \<open>main\<close> are separate state: \<open>env.step\<close>
  (line 168) works on the former, the end of the epoch (lines 444 to 458) on the latter.
\<close>

record ('q, 'p, 'b) world =
  w_env :: "'q env"
  w_trainer :: "('p, 'b) trainer"

definition world_env_step ::
  "('q, 'a, 'o) mujoco \<Rightarrow> ('q, 'p, 'b) world \<Rightarrow> 'a
     \<Rightarrow> error + ('o step_result \<times> ('q, 'p, 'b) world)" where
  "world_env_step mj w action =
     (case env_step mj (w_env w) action of
        Inl e \<Rightarrow> Inl e
      | Inr (r, s') \<Rightarrow> Inr (r, w\<lparr>w_env := s'\<rparr>))"

definition world_task_switch ::
  "('p, 'o, 'a) policy_ops \<Rightarrow> ('b \<Rightarrow> ('o, 'a) batch \<times> 'b) \<Rightarrow> config \<Rightarrow> ('q, 'p, 'b) world
     \<Rightarrow> error + ('q, 'p, 'b) world" where
  "world_task_switch ops get cfg w =
     (case task_switch ops get cfg (w_trainer w) of
        Inl e \<Rightarrow> Inl e
      | Inr tr \<Rightarrow> Inr (w\<lparr>w_trainer := tr\<rparr>))"


section \<open>Auxiliary notions\<close>

text \<open>
  A slot has a boundary at a step when the epoch ends there or one of its flags is set.
\<close>

definition has_boundary :: "int \<Rightarrow> int \<Rightarrow> vec_step \<Rightarrow> nat \<Rightarrow> bool" where
  "has_boundary local_steps_per_epoch steps r idx =
     (steps \<ge> local_steps_per_epoch - 1 \<or> terminated_flags r ! idx \<or> truncated_flags r ! idx)"

text \<open>
  The value that the three rules give for a slot (the final observation counts only under
  the rule of truncation).
\<close>

definition slot_bootstrap ::
  "(tensor \<Rightarrow> real \<times> real) \<Rightarrow> nat \<Rightarrow> vec_step \<Rightarrow> nat \<Rightarrow> real \<times> real" where
  "slot_bootstrap critic obs_dim r idx =
     bootstrap critic (boundary_of (terminated_flags r ! idx) (truncated_flags r ! idx))
       (next_obs r ! idx)
       (case final_observation_at obs_dim r idx of Inr f \<Rightarrow> f | Inl e \<Rightarrow> [])"

text \<open>
  The results of a vectorised step have one entry per slot, and the final observations
  are present whenever a slot is truncated without being terminated.
\<close>

definition well_shaped :: "nat \<Rightarrow> vec_step \<Rightarrow> bool" where
  "well_shaped num_envs r =
     (length (terminated_flags r) = num_envs \<and> length (truncated_flags r) = num_envs \<and>
      length (next_obs r) = num_envs \<and>
      (case final_observation r of
         None \<Rightarrow> list_all (\<lambda>(done, time_out). done \<or> \<not> time_out)
                   (zip (terminated_flags r) (truncated_flags r))
       | Some arrays \<Rightarrow> length arrays = num_envs))"

text \<open>The entry of one parameter name after the square of one more gradient is added.\<close>

definition add_square :: "tensor option \<Rightarrow> tensor \<Rightarrow> tensor option" where
  "add_square entry g =
     Some (case entry of None \<Rightarrow> square g | Some t \<Rightarrow> map2 (+) t (square g))"

text \<open>The three variables of the regularizer's clock.\<close>

definition clock_of :: "('p, 'b) trainer \<Rightarrow> nat \<times> int \<times> nat" where
  "clock_of tr = (current_task_index tr, main_steps_since_change tr, task_switches tr)"

text \<open>
  The number of epochs that one task takes: \<open>T / S\<close> rounded up, which for positive
  \<open>S\<close> is the least \<open>m\<close> with \<open>m * S \<ge> T\<close>.
\<close>

definition epochs_per_task :: "config \<Rightarrow> nat" where
  "epochs_per_task cfg = nat ((steps_per_task cfg + steps_per_epoch cfg - 1) div steps_per_epoch cfg)"

text \<open>
  A configuration is well formed for a trainer when the current task index is in the
  task list, every task id is an index of the slot lists (Python also takes the negative
  ones), and the slot lists have the length of the task list.
\<close>

definition well_formed :: "config \<Rightarrow> ('p, 'b) trainer \<Rightarrow> bool" where
  "well_formed cfg tr =
     (current_task_index tr < length (tasks cfg) \<and>
      length (fisher_matrices tr) = length (tasks cfg) \<and>
      length (old_params_list tr) = length (tasks cfg) \<and>
      list_all (\<lambda>t. - int (length (tasks cfg)) \<le> t \<and> t < int (length (tasks cfg))) (tasks cfg))"

section \<open>Example inputs\<close>

text \<open>A small physics: the position moves by the action in unit time.\<close>

definition example_mujoco :: "(real, real, real) mujoco" where
  "example_mujoco =
     \<lparr>do_simulation = (\<lambda>masses q a. q + a), qpos0 = (\<lambda>q. q), dt = 1,
      control_cost = (\<lambda>a. 0), forward_reward_weight = 1, get_obs = (\<lambda>q. q),
      reset_sim = (\<lambda>masses q. 0)\<rparr>"

text \<open>Two steps per epoch, three steps per task, three task ids.\<close>

definition example_config :: config where
  "example_config =
     \<lparr>steps_per_epoch = 2, steps_per_task = 3, tasks = [0, 1, 2],
      target_kl = 0.02, learning_iters = 40\<rparr>"

text \<open>An update whose passes count up, with a KL divergence that grows by 0.01 per pass.\<close>

definition example_update_ops :: "(nat, nat, nat) update_ops" where
  "example_update_ops =
     \<lparr>minibatch_pass = (\<lambda>i data fm opl p. Inr (p + 1)),
      mean_kl = (\<lambda>p0 os p. real (p - p0) / 100)\<rparr>"

definition example_trainer :: "(nat, (nat, nat) buffer) trainer" where
  "example_trainer = trainer_init example_config 0 \<lparr>stored = \<lparr>obs = [7], act = [1]\<rparr>, ptr = 1\<rparr>"

text \<open>
  An update that leaves the policy as it is and stops after its first pass, and a
  rollout that refills the buffer with the same batch.
\<close>

definition idle_update_ops :: "(real, real, real) update_ops" where
  "idle_update_ops = \<lparr>minibatch_pass = (\<lambda>i data fm opl p. Inr p), mean_kl = (\<lambda>p0 os p. 1)\<rparr>"

text \<open>A one-slot epoch of two steps; the slot is truncated at the first step.\<close>

definition example_critic :: "tensor \<Rightarrow> real \<times> real" where
  "example_critic ob = (sum_list ob, 0)"

definition example_trace :: "nat \<Rightarrow> vec_step" where
  "example_trace steps =
     (if steps = 0
      then \<lparr>next_obs = [[1]], terminated_flags = [False], truncated_flags = [True],
            final_observation = Some [Some [5]]\<rparr>
      else \<lparr>next_obs = [[2]], terminated_flags = [False], truncated_flags = [False],
            final_observation = None\<rparr>)"

text \<open>
  A policy with one weight \<open>w\<close> and mean action \<open>w * obs\<close>: the gradient of the
  log-probability of an action is \<open>(act - w * obs) * obs\<close>.
\<close>

definition example_policy_ops :: "(real, real, real) policy_ops" where
  "example_policy_ops =
     \<lparr>named_parameters = (\<lambda>w. [(''w'', [w])]),
      grad_log_prob = (\<lambda>w ob ac name. [(ac - w * ob) * ob])\<rparr>"

text \<open>A batch of two pairs; with the weight 1 the gradients are 2 and -2.\<close>

definition example_batch :: "(real, real) batch" where
  "example_batch = \<lparr>obs = [1, 2], act = [3, 1]\<rparr>"

definition same_batch :: "nat \<Rightarrow> real \<Rightarrow> (real, real) batch \<Rightarrow> (real, real) batch" where
  "same_batch epoch p b = example_batch"

text \<open>
  A trainer at the end of an epoch whose first task slot already holds a record; the
  buffer is the batch itself.
\<close>

definition revisiting_trainer :: "(real, (real, real) batch) trainer" where
  "revisiting_trainer =
     \<lparr>policy = 1, buffer = example_batch,
      fisher_matrices = [Some [(''w'', [9])], None, None],
      old_params_list = [Some [(''w'', [0])], None, None],
      current_task_index = 0, main_steps_since_change = 2, task_switches = 3\<rparr>"

text \<open>
  A trainer without any record, one epoch before its first task switch; the buffer is
  the batch itself.
\<close>

definition fresh_trainer :: "(real, (real, real) batch) trainer" where
  "fresh_trainer = (trainer_init example_config 1 example_batch)\<lparr>main_steps_since_change := 2\<rparr>"

text \<open>
  The same with the buffer of the spec at the end of a rollout: it holds the batch of
  the epoch, and the write position is behind its two steps.
\<close>

definition loaded_trainer :: "(real, (real, real) buffer) trainer" where
  "loaded_trainer =
     (trainer_init example_config 1 \<lparr>stored = example_batch, ptr = 2\<rparr>)
       \<lparr>main_steps_since_change := 2\<rparr>"

text \<open>A store with one parameter tensor in cell 0.\<close>

definition example_heap :: heap where
  "example_heap = \<lparr>cells = (\<lambda>a. if a = 0 then [1, 2] else []), next_free = 1\<rparr>"

section \<open>Properties of the environment\<close>

subsection \<open>The look-ups of the task cycle never fail\<close>

lemma TASK_CYCLE_cases:
  "i < length TASK_CYCLE \<Longrightarrow> TASK_CYCLE ! i \<in> {''nominal'', ''eighteen'', ''sixteen'', ''twenty''}"
proof -
  assume "i < length TASK_CYCLE"
  then have "i < 5" by (simp add: TASK_CYCLE_def)
  then consider "i = 0" | "i = 1" | "i = 2" | "i = 3" | "i = 4" by linarith
  then show ?thesis by cases (simp_all add: TASK_CYCLE_def)
qed

lemma dict_get_MULTIPLIERS:
  assumes "i < length TASK_CYCLE"
  shows "\<exists>m. dict_get MULTIPLIERS (TASK_CYCLE ! i) = Inr m"
proof -
  have "TASK_CYCLE ! i \<in> fst ` set MULTIPLIERS"
    using TASK_CYCLE_cases[OF assms] by (auto simp: MULTIPLIERS_def)
  then have "TASK_CYCLE ! i \<in> dom (map_of MULTIPLIERS)"
    by (simp only: dom_map_of_conv_image_fst)
  then show ?thesis by (auto simp: dict_get_def)
qed

lemma change_task_total:
  assumes "current_task s < length TASK_CYCLE"
  shows "change_task mj s =
     Inr (s\<lparr>current_task_name := TASK_CYCLE ! current_task s,
            body_mass := map (\<lambda>x. x * multiplier_of (current_task s)) NOMINAL_MASSES,
            sim_data := reset_sim mj (map (\<lambda>x. x * multiplier_of (current_task s)) NOMINAL_MASSES) (sim_data s),
            reset_count := Suc (reset_count s)\<rparr>)"
proof -
  obtain m where m: "dict_get MULTIPLIERS (TASK_CYCLE ! current_task s) = Inr m"
    using dict_get_MULTIPLIERS[OF assms] by blast
  show ?thesis using assms
    by (simp add: change_task_def list_get_def m multiplier_of_def Let_def)
qed

lemma check_task_total:
  "check_task mj s =
     Inr (if real_of_int (steps_since_change s) > TASK_LENGTH
          then s\<lparr>steps_since_change := 0,
                 current_task := (current_task s + 1) mod length TASK_CYCLE,
                 current_task_name := TASK_CYCLE ! ((current_task s + 1) mod length TASK_CYCLE),
                 body_mass := map (\<lambda>x. x * multiplier_of ((current_task s + 1) mod length TASK_CYCLE)) NOMINAL_MASSES,
                 sim_data := reset_sim mj (map (\<lambda>x. x * multiplier_of ((current_task s + 1) mod length TASK_CYCLE)) NOMINAL_MASSES) (sim_data s),
                 reset_count := Suc (reset_count s)\<rparr>
          else s)"
proof -
  have lt: "(current_task s + 1) mod length TASK_CYCLE < length TASK_CYCLE"
    by (simp add: TASK_CYCLE_def)
  show ?thesis
    unfolding check_task_def
    by (simp add: change_task_total lt del: One_nat_def add: TASK_CYCLE_def[symmetric])
qed

lemma multiplier_of_values:
  "multiplier_of 0 = 1" "multiplier_of 1 = 18/14" "multiplier_of 2 = 1" "multiplier_of 3 = 16/14" "multiplier_of 4 = 20/14"
  by (simp_all add: multiplier_of_def TASK_CYCLE_def MULTIPLIERS_def dict_get_def)

lemma env_step_total:
  "env_step mj s a =
     Inr (\<lparr>observation = get_obs mj (do_simulation mj (body_mass s) (sim_data s) a),
           reward = forward_reward_weight mj * measured_velocity mj s a - control_cost mj a,
           cost = float_of_bool (measured_velocity mj s a > velocity_threshold s),
           terminated = False, truncated = False,
           info = \<lparr>x_position = qpos0 mj (do_simulation mj (body_mass s) (sim_data s) a),
                   x_velocity = measured_velocity mj s a,
                   reward_run = forward_reward_weight mj * measured_velocity mj s a,
                   reward_ctrl = - control_cost mj a\<rparr>\<rparr>,
          (case check_task mj (s\<lparr>sim_data := do_simulation mj (body_mass s) (sim_data s) a\<rparr>) of
             Inr s' \<Rightarrow> s'\<lparr>steps_since_change := steps_since_change s' + 1\<rparr>))"
  by (simp add: env_step_def check_task_total measured_velocity_def Let_def)

lemma env_step_state:
  "\<exists>r. env_step mj s a =
     Inr (r, if real_of_int (steps_since_change s) > TASK_LENGTH
          then s\<lparr>steps_since_change := 1,
                 current_task := (current_task s + 1) mod length TASK_CYCLE,
                 current_task_name := TASK_CYCLE ! ((current_task s + 1) mod length TASK_CYCLE),
                 body_mass := map (\<lambda>x. x * multiplier_of ((current_task s + 1) mod length TASK_CYCLE)) NOMINAL_MASSES,
                 sim_data := reset_sim mj (map (\<lambda>x. x * multiplier_of ((current_task s + 1) mod length TASK_CYCLE)) NOMINAL_MASSES)
                    (do_simulation mj (body_mass s) (sim_data s) a),
                 reset_count := Suc (reset_count s)\<rparr>
          else s\<lparr>steps_since_change := steps_since_change s + 1,
                 sim_data := do_simulation mj (body_mass s) (sim_data s) a\<rparr>)"
  by (simp add: env_step_total check_task_total)

lemma env_run_counters:
  "\<exists>s'. env_run mj actions (Suc n) (env_init masses q) = Inr s' \<and>
     steps_since_change s' = int (n mod 100001) + 1 \<and>
     current_task s' = (n div 100001) mod 5 \<and>
     reset_count s' = n div 100001 \<and> velocity_threshold s' = 3.2096"
proof (induction n)
  case 0
  obtain r where "env_step mj (env_init masses q) (actions 0) = Inr (r, (env_init masses q)\<lparr>steps_since_change := 1,
        sim_data := do_simulation mj masses q (actions 0)\<rparr>)"
    using env_step_state[of mj "env_init masses q" "actions 0"]
    by (auto simp: env_init_def TASK_LENGTH_def)
  then show ?case by (simp add: env_init_def)
next
  case (Suc n)
  then obtain s' where s': "env_run mj actions (Suc n) (env_init masses q) = Inr s'"
    "steps_since_change s' = int (n mod 100001) + 1"
    "current_task s' = (n div 100001) mod 5" "reset_count s' = n div 100001"
    "velocity_threshold s' = 3.2096"
    by blast
  obtain r s'' where st: "env_step mj s' (actions (Suc n)) = Inr (r, s'')"
    and s'': "s'' = (if real_of_int (steps_since_change s') > TASK_LENGTH
          then s'\<lparr>steps_since_change := 1,
                 current_task := (current_task s' + 1) mod length TASK_CYCLE,
                 current_task_name := TASK_CYCLE ! ((current_task s' + 1) mod length TASK_CYCLE),
                 body_mass := map (\<lambda>x. x * multiplier_of ((current_task s' + 1) mod length TASK_CYCLE)) NOMINAL_MASSES,
                 sim_data := reset_sim mj (map (\<lambda>x. x * multiplier_of ((current_task s' + 1) mod length TASK_CYCLE)) NOMINAL_MASSES)
                    (do_simulation mj (body_mass s') (sim_data s') (actions (Suc n))),
                 reset_count := Suc (reset_count s')\<rparr>
          else s'\<lparr>steps_since_change := steps_since_change s' + 1,
                 sim_data := do_simulation mj (body_mass s') (sim_data s') (actions (Suc n))\<rparr>)"
    using env_step_state[of mj s' "actions (Suc n)"] by blast
  have run: "env_run mj actions (Suc (Suc n)) (env_init masses q) = Inr s''"
    using s'(1) st by simp
  have len: "length TASK_CYCLE = 5" by (simp add: TASK_CYCLE_def)
  show ?case
  proof (cases "n mod 100001 = 100000")
    case True
    then have gt: "real_of_int (steps_since_change s') > TASK_LENGTH"
      by (simp add: s'(2) TASK_LENGTH_def)
    have e: "Suc (n mod 100001) = 100001" using True by simp
    have m: "Suc n mod 100001 = 0" by (simp add: mod_Suc e)
    have d: "Suc n div 100001 = Suc (n div 100001)" by (simp add: div_Suc m)
    show ?thesis using run gt s' m d len
      by (simp add: s'' mod_Suc_eq del: env_run.simps)
  next
    case False
    have "n mod 100001 < 100001" by simp
    with False have lt: "n mod 100001 < 100000" by linarith
    then have ngt: "\<not> real_of_int (steps_since_change s') > TASK_LENGTH"
      by (simp add: s'(2) TASK_LENGTH_def)
    have e: "Suc (n mod 100001) \<noteq> 100001" using lt by simp
    have m: "Suc n mod 100001 = Suc (n mod 100001)" using e by (simp add: mod_Suc)
    have d: "Suc n div 100001 = n div 100001" using m by (simp add: div_Suc)
    show ?thesis using run ngt s' m d
      by (simp add: s'' del: env_run.simps)
  qed
qed


lemma dict_get_multiplier_of:
  "i < length TASK_CYCLE \<Longrightarrow> dict_get MULTIPLIERS (TASK_CYCLE ! i) = Inr (multiplier_of i)"
  using dict_get_MULTIPLIERS[of i] by (auto simp: multiplier_of_def)

lemma world_env_step_frame:
  "\<exists>r s'. env_step mj (w_env w) a = Inr (r, s') \<and> world_env_step mj w a = Inr (r, w\<lparr>w_env := s'\<rparr>)"
  by (simp add: world_env_step_def env_step_total)

lemma world_task_switch_frame:
  "(case world_task_switch ops get cfg w of Inl e \<Rightarrow> True | Inr w' \<Rightarrow> w_env w' = w_env w)"
  by (simp add: world_task_switch_def split: sum.splits)

subsection \<open>Flags and cost of a step\<close>

text \<open>
  Claim C10. For every state and action, \<open>step\<close> returns (it does not raise) with
  \<open>terminated = False\<close> and \<open>truncated = False\<close>; the cost is 0 or 1, and it is 1
  exactly when the measured x-velocity is strictly above the velocity threshold. So, with
  the flag of this environment, the collector never takes the rule of natural termination,
  whatever the truncation flag is.
\<close>

theorem env_step_never_terminates:
  "\<exists>r s'. env_step mj s a = Inr (r, s') \<and>
      terminated r = False \<and> truncated r = False \<and>
      (cost r = 0 \<or> cost r = 1) \<and>
      (cost r = 1) = (measured_velocity mj s a > velocity_threshold s) \<and>
      x_velocity (info r) = measured_velocity mj s a \<and>
      boundary_of (terminated r) tout \<noteq> NaturalTermination"
  by (simp add: env_step_total float_of_bool_def boundary_of_def)

theorem env_step_never_terminates_witness:
  "\<exists>r s'. env_step example_mujoco (env_init NOMINAL_MASSES 0) 4 = Inr (r, s') \<and>
      terminated r = False \<and> truncated r = False \<and> cost r = 1"
  using env_step_never_terminates[of example_mujoco "env_init NOMINAL_MASSES 0" 4 True]
  by (simp add: measured_velocity_def example_mujoco_def env_init_def) blast

subsection \<open>The task cycle\<close>

text \<open>
  Claim C7. \<open>check_task\<close> sets the counter to 0 exactly when it is strictly above
  \<open>TASK_LENGTH\<close>. In that case a step advances the variant index by one modulo the
  length of the cycle, sets the name and the body masses (the nominal masses times the
  multiplier that the table holds for the new variant), resets the environment once, and
  leaves the counter at 1 after its increment; otherwise the step only increments the
  counter. From the initial state, after \<open>n + 1\<close> steps the index has advanced
  \<open>n div 100001\<close> times. A step of the environment leaves the trainer's variables as
  they are and does not read them, and the trainer's task switch leaves the environment
  as it is.
\<close>

theorem env_task_cycle:
  "(\<exists>c. check_task mj s = Inr c \<and>
        steps_since_change c =
          (if real_of_int (steps_since_change s) > TASK_LENGTH then 0 else steps_since_change s)) \<and>
   (\<exists>r s'. env_step mj s a = Inr (r, s') \<and>
      (if real_of_int (steps_since_change s) > TASK_LENGTH
       then current_task s' = (current_task s + 1) mod length TASK_CYCLE \<and>
            steps_since_change s' = 0 + 1 \<and>
            current_task_name s' = TASK_CYCLE ! current_task s' \<and>
            dict_get MULTIPLIERS (current_task_name s') = Inr (multiplier_of (current_task s')) \<and>
            body_mass s' = map (\<lambda>x. x * multiplier_of (current_task s')) NOMINAL_MASSES \<and>
            reset_count s' = Suc (reset_count s)
       else current_task s' = current_task s \<and>
            steps_since_change s' = steps_since_change s + 1 \<and>
            current_task_name s' = current_task_name s \<and>
            body_mass s' = body_mass s \<and>
            reset_count s' = reset_count s)) \<and>
   (\<exists>s'. env_run mj actions (Suc n) (env_init masses q) = Inr s' \<and>
      steps_since_change s' = int (n mod 100001) + 1 \<and>
      current_task s' = (n div 100001) mod length TASK_CYCLE \<and>
      reset_count s' = n div 100001) \<and>
   (\<exists>r s'. env_step mj (w_env w) a' = Inr (r, s') \<and>
      world_env_step mj w a' = Inr (r, w\<lparr>w_env := s'\<rparr>)) \<and>
   (case world_task_switch ops get cfg w of Inl e \<Rightarrow> True | Inr w' \<Rightarrow> w_env w' = w_env w)"
proof -
  have lt: "(current_task s + 1) mod length TASK_CYCLE < length TASK_CYCLE"
    by (simp add: TASK_CYCLE_def)
  have one: "\<exists>c. check_task mj s = Inr c \<and>
        steps_since_change c =
          (if real_of_int (steps_since_change s) > TASK_LENGTH then 0 else steps_since_change s)"
    by (simp add: check_task_total)
  obtain r where r: "env_step mj s a =
     Inr (r, if real_of_int (steps_since_change s) > TASK_LENGTH
          then s\<lparr>steps_since_change := 1,
                 current_task := (current_task s + 1) mod length TASK_CYCLE,
                 current_task_name := TASK_CYCLE ! ((current_task s + 1) mod length TASK_CYCLE),
                 body_mass := map (\<lambda>x. x * multiplier_of ((current_task s + 1) mod length TASK_CYCLE)) NOMINAL_MASSES,
                 sim_data := reset_sim mj (map (\<lambda>x. x * multiplier_of ((current_task s + 1) mod length TASK_CYCLE)) NOMINAL_MASSES)
                    (do_simulation mj (body_mass s) (sim_data s) a),
                 reset_count := Suc (reset_count s)\<rparr>
          else s\<lparr>steps_since_change := steps_since_change s + 1,
                 sim_data := do_simulation mj (body_mass s) (sim_data s) a\<rparr>)"
    using env_step_state[of mj s a] by blast
  have two: "\<exists>r s'. env_step mj s a = Inr (r, s') \<and>
      (if real_of_int (steps_since_change s) > TASK_LENGTH
       then current_task s' = (current_task s + 1) mod length TASK_CYCLE \<and>
            steps_since_change s' = 0 + 1 \<and>
            current_task_name s' = TASK_CYCLE ! current_task s' \<and>
            dict_get MULTIPLIERS (current_task_name s') = Inr (multiplier_of (current_task s')) \<and>
            body_mass s' = map (\<lambda>x. x * multiplier_of (current_task s')) NOMINAL_MASSES \<and>
            reset_count s' = Suc (reset_count s)
       else current_task s' = current_task s \<and>
            steps_since_change s' = steps_since_change s + 1 \<and>
            current_task_name s' = current_task_name s \<and>
            body_mass s' = body_mass s \<and>
            reset_count s' = reset_count s)"
    using dict_get_multiplier_of[OF lt] by (simp add: r)
  have three: "\<exists>s'. env_run mj actions (Suc n) (env_init masses q) = Inr s' \<and>
      steps_since_change s' = int (n mod 100001) + 1 \<and>
      current_task s' = (n div 100001) mod length TASK_CYCLE \<and>
      reset_count s' = n div 100001"
    using env_run_counters[of mj actions n masses q] by (auto simp: TASK_CYCLE_def)
  from one two three world_env_step_frame[where mj = mj and w = w and a = "a'"] world_task_switch_frame[where ops = ops and get = get and cfg = cfg and w = w]
  show ?thesis by blast
qed

theorem env_task_cycle_witness:
  "\<exists>s'. env_run example_mujoco (\<lambda>i. 1) (Suc 100001) (env_init NOMINAL_MASSES 0) = Inr s' \<and>
      steps_since_change s' = 1 \<and> current_task s' = 1 \<and> reset_count s' = 1"
proof -
  from env_task_cycle[where mj = example_mujoco and actions = "\<lambda>i. 1" and n = 100001
      and masses = NOMINAL_MASSES and q = 0]
  have "\<exists>s'. env_run example_mujoco (\<lambda>i. 1) (Suc 100001) (env_init NOMINAL_MASSES 0) = Inr s' \<and>
      steps_since_change s' = int (100001 mod 100001) + 1 \<and>
      current_task s' = (100001 div 100001) mod length TASK_CYCLE \<and>
      reset_count s' = 100001 div 100001"
    by blast
  then show ?thesis by (simp add: TASK_CYCLE_def del: env_run.simps)
qed

section \<open>Properties of the update\<close>

subsection \<open>The KL check stops the pass loop\<close>

lemma pass_loop_continue:
  assumes "j \<le> n"
    and "\<forall>i. 0 < i \<and> i \<le> j \<longrightarrow> (\<exists>p. after_passes rp i p0 = Inr p \<and> \<not> kl p > target)"
  shows "\<exists>p fk. after_passes rp j p0 = Inr p \<and>
           pass_loop rp kl target n
             \<lparr>u_policy = p0, update_counts = 0, final_kl = OnesLike, kl_evaluations = 0\<rparr> =
           pass_loop rp kl target (n - j)
             \<lparr>u_policy = p, update_counts = j, final_kl = fk, kl_evaluations = j\<rparr>"
  using assms
proof (induction j)
  case 0
  then show ?case by auto
next
  case (Suc j)
  then obtain p fk where p: "after_passes rp j p0 = Inr p"
    and eq: "pass_loop rp kl target n
             \<lparr>u_policy = p0, update_counts = 0, final_kl = OnesLike, kl_evaluations = 0\<rparr> =
           pass_loop rp kl target (n - j)
             \<lparr>u_policy = p, update_counts = j, final_kl = fk, kl_evaluations = j\<rparr>"
    by (metis Suc_leD le_SucI)
  from Suc.prems obtain p' where p': "after_passes rp (Suc j) p0 = Inr p'" "\<not> kl p' > target"
    by blast
  have rp: "rp j p = Inr p'" using p p' by simp
  have nj: "n - j = Suc (n - Suc j)" using Suc.prems(1) by simp
  show ?case
    unfolding eq nj using rp p' by (auto simp: Let_def)
qed

lemma pass_loop_stops:
  assumes "0 < k" "k \<le> n"
    and "after_passes rp k p0 = Inr pk" "kl pk > target"
    and "\<forall>i. 0 < i \<and> i < k \<longrightarrow> (\<exists>p. after_passes rp i p0 = Inr p \<and> \<not> kl p > target)"
  shows "pass_loop rp kl target n
             \<lparr>u_policy = p0, update_counts = 0, final_kl = OnesLike, kl_evaluations = 0\<rparr> =
         Inr \<lparr>u_policy = pk, update_counts = k, final_kl = Scalar (kl pk), kl_evaluations = k\<rparr>"
proof -
  obtain j where k: "k = Suc j" using assms(1) by (cases k) auto
  have "j \<le> n" using assms(2) k by simp
  moreover have "\<forall>i. 0 < i \<and> i \<le> j \<longrightarrow> (\<exists>p. after_passes rp i p0 = Inr p \<and> \<not> kl p > target)"
    using assms(5) k by auto
  ultimately obtain p fk where p: "after_passes rp j p0 = Inr p"
    and eq: "pass_loop rp kl target n
             \<lparr>u_policy = p0, update_counts = 0, final_kl = OnesLike, kl_evaluations = 0\<rparr> =
           pass_loop rp kl target (n - j)
             \<lparr>u_policy = p, update_counts = j, final_kl = fk, kl_evaluations = j\<rparr>"
    using pass_loop_continue[where j = j and n = n and rp = rp and ?p0.0 = p0 and kl = kl and target = target] by blast
  have rp: "rp j p = Inr pk" using p assms(3) k by simp
  have nj: "n - j = Suc (n - Suc j)" using assms(2) k by simp
  show ?thesis
    unfolding eq nj using rp assms(4) k by (simp add: Let_def)
qed

lemma pass_loop_counts:
  "pass_loop rp kl target n st = Inr st' \<Longrightarrow>
     \<exists>d. d \<le> n \<and> update_counts st' = update_counts st + d \<and>
         kl_evaluations st' = kl_evaluations st + d"
proof (induction n arbitrary: st)
  case 0
  then show ?case by simp
next
  case (Suc n)
  show ?case
  proof (cases "rp (update_counts st) (u_policy st)")
    case (Inl e)
    with Suc.prems show ?thesis by simp
  next
    case (Inr p')
    let ?st = "\<lparr>u_policy = p', update_counts = update_counts st + 1,
                     final_kl = Scalar (kl p'), kl_evaluations = kl_evaluations st + 1\<rparr>"
    show ?thesis
    proof (cases "kl p' > target")
      case True
      with Suc.prems Inr have "st' = ?st" by (simp add: Let_def)
      then have "Suc 0 \<le> Suc n \<and> update_counts st' = update_counts st + Suc 0 \<and>
         kl_evaluations st' = kl_evaluations st + Suc 0" by simp
      then show ?thesis by blast
    next
      case False
      with Suc.prems Inr have "pass_loop rp kl target n ?st = Inr st'" by (simp add: Let_def)
      from Suc.IH[OF this] obtain d where "d \<le> n" "update_counts st' = update_counts st + Suc d"
        "kl_evaluations st' = kl_evaluations st + Suc d" by auto
      then have "Suc d \<le> Suc n \<and> update_counts st' = update_counts st + Suc d \<and>
         kl_evaluations st' = kl_evaluations st + Suc d" by simp
      then show ?thesis by blast
    qed
  qed
qed

text \<open>
  Claim C5. The mean KL divergence over the whole batch is evaluated once after each full
  pass. When it exceeds \<open>target_kl\<close> after pass \<open>k\<close> (and did not after the passes
  before, which all ran), the update ends with the policy that \<open>k\<close> passes produced, so
  no further pass runs; \<open>update_counts\<close> is \<open>k\<close>, the KL divergence was evaluated
  \<open>k\<close> times, and \<open>final_kl\<close> is its last value.
\<close>

theorem kl_early_stop:
  assumes "0 < k" and "k \<le> learning_iters cfg"
    and "after_passes (\<lambda>i. minibatch_pass uops i data (fisher_matrices tr) (old_params_list tr))
           k (policy tr) = Inr pk"
    and "mean_kl uops (policy tr) (obs data) pk > target_kl cfg"
    and "\<forall>i. 0 < i \<and> i < k \<longrightarrow>
           (\<exists>p. after_passes (\<lambda>i. minibatch_pass uops i data (fisher_matrices tr) (old_params_list tr))
                   i (policy tr) = Inr p \<and>
                \<not> mean_kl uops (policy tr) (obs data) p > target_kl cfg)"
  shows "ppo_update uops cfg data tr =
           Inr \<lparr>u_policy = pk, update_counts = k,
                final_kl = Scalar (mean_kl uops (policy tr) (obs data) pk),
                kl_evaluations = k\<rparr>"
  unfolding ppo_update_def using assms by (rule pass_loop_stops)

lemma after_passes_example:
  "after_passes (\<lambda>i. minibatch_pass example_update_ops i d f g) i p = Inr (p + i)"
  by (induction i) (simp_all add: example_update_ops_def)

theorem kl_early_stop_witness:
  "ppo_update example_update_ops example_config \<lparr>obs = [7], act = [1::nat]\<rparr> example_trainer =
     Inr \<lparr>u_policy = 3, update_counts = 3, final_kl = Scalar 0.03, kl_evaluations = 3\<rparr>"
proof -
  let ?rp = "\<lambda>i. minibatch_pass example_update_ops i \<lparr>obs = [7], act = [1::nat]\<rparr>
             (fisher_matrices example_trainer) (old_params_list example_trainer)"
  let ?kl = "mean_kl example_update_ops (policy example_trainer) (obs \<lparr>obs = [7], act = [1::nat]\<rparr>)"
  have ap: "after_passes ?rp i (policy example_trainer) = Inr i" for i
    by (simp add: after_passes_example example_trainer_def trainer_init_def)
  have kl: "?kl p = real p / 100" for p
    by (simp add: example_update_ops_def example_trainer_def trainer_init_def)
  have tk: "target_kl example_config = 0.02" by (simp add: example_config_def)
  have a: "(0::nat) < 3" by simp
  have b: "3 \<le> learning_iters example_config" by (simp add: example_config_def)
  have c: "after_passes ?rp 3 (policy example_trainer) = Inr 3" by (rule ap)
  have d: "?kl 3 > target_kl example_config" unfolding kl tk by simp
  have e: "\<forall>i. 0 < i \<and> i < 3 \<longrightarrow>
           (\<exists>p. after_passes ?rp i (policy example_trainer) = Inr p \<and> \<not> ?kl p > target_kl example_config)"
    unfolding ap kl tk by auto
  from kl_early_stop[OF a b c d e] show ?thesis
    unfolding kl by simp
qed

subsection \<open>The clipped surrogate\<close>

lemma surrogate_by_sign:
  "surrogate r a = (if 0 \<le> a then min r 1.2 * a else max r 0.8 * a)"
proof -
  have c1: "min r (clamp r 0.8 1.2) = min r 1.2"
    by (simp add: clamp_def min_def max_def)
  have c2: "max r (clamp r 0.8 1.2) = max r 0.8"
    by (simp add: clamp_def min_def max_def)
  have "surrogate r a =
          (if 0 \<le> a then min r (clamp r 0.8 1.2) * a else max r (clamp r 0.8 1.2) * a)"
    unfolding surrogate_def by (simp add: min_mult_distrib_right max_mult_distrib_right)
  then show ?thesis by (simp only: c1 c2)
qed

lemma loss_pi_terms:
  assumes "length log_prob = n" "length log_prob_b = n" "length adv_b = n"
  shows "map2 min (map2 (*) (map2 (\<lambda>new old. exp (new - old)) log_prob log_prob_b) adv_b)
           (map2 (*) (map (\<lambda>r. clamp r 0.8 1.2) (map2 (\<lambda>new old. exp (new - old)) log_prob log_prob_b)) adv_b)
         = map (\<lambda>i. surrogate (exp (log_prob ! i - log_prob_b ! i)) (adv_b ! i)) [0..<n]"
  using assms by (intro nth_equalityI) (simp_all add: surrogate_def)

text \<open>
  Claim C6. For a minibatch of \<open>n > 0\<close> samples, the actor loss is the negated mean of
  the surrogate terms, where the term of sample \<open>i\<close> is the smaller of
  \<open>ratio * advantage\<close> and \<open>clip(ratio, 0.8, 1.2) * advantage\<close> with
  \<open>ratio = exp (new_log_prob - old_log_prob)\<close>. Whatever the signs: for a non-negative
  advantage the term is \<open>min(ratio, 1.2) * advantage\<close>, for a negative one
  \<open>max(ratio, 0.8) * advantage\<close>.
\<close>

theorem loss_pi_clipped_surrogate:
  assumes "0 < n" "length log_prob = n" "length log_prob_b = n" "length adv_b = n"
  shows "loss_pi log_prob log_prob_b adv_b =
           - (\<Sum>i = 0..<n. min (exp (log_prob ! i - log_prob_b ! i) * adv_b ! i)
                              (clamp (exp (log_prob ! i - log_prob_b ! i)) 0.8 1.2 * adv_b ! i))
               / real n \<and>
         (\<forall>r a. min (r * a) (clamp r 0.8 1.2 * a) =
                  (if 0 \<le> a then min r 1.2 * a else max r 0.8 * a))"
proof -
  have "loss_pi log_prob log_prob_b adv_b =
          - sum_list (map (\<lambda>i. surrogate (exp (log_prob ! i - log_prob_b ! i)) (adv_b ! i)) [0..<n])
              / real n"
    unfolding loss_pi_def Let_def mean_def loss_pi_terms[OF assms(2-4)] by simp
  also have "\<dots> = - (\<Sum>i = 0..<n. surrogate (exp (log_prob ! i - log_prob_b ! i)) (adv_b ! i)) / real n"
    by (simp add: interv_sum_list_conv_sum_set_nat)
  finally show ?thesis using surrogate_by_sign by (simp add: surrogate_def)
qed

theorem loss_pi_clipped_surrogate_witness:
  "loss_pi [0, 0] [0, 0] [1, -1] = 0"
  using loss_pi_clipped_surrogate[of 2 "[0, 0]" "[0, 0]" "[1, -1]"]
  by (simp add: clamp_def numeral_2_eq_2)

section \<open>Properties of the collector\<close>

lemma last_values_rule:
  assumes "epoch_end \<or> done \<or> time_out"
    and "\<not> done \<and> time_out \<longrightarrow> final_idx = Inr f"
  shows "last_values critic epoch_end done time_out (Inr ob) final_idx =
           Inr (bootstrap critic (boundary_of done time_out) ob f)"
  using assms by (auto simp: last_values_def bootstrap_def boundary_of_def)

lemma final_observation_at_defined:
  assumes "well_shaped num_envs r" "idx < num_envs"
    "\<not> terminated_flags r ! idx \<and> truncated_flags r ! idx"
  shows "\<exists>f. final_observation_at obs_dim r idx = Inr f"
proof (cases "final_observation r")
  case None
  with assms(1) have "list_all (\<lambda>(done, time_out). done \<or> \<not> time_out)
                   (zip (terminated_flags r) (truncated_flags r))"
    and len: "length (terminated_flags r) = num_envs" "length (truncated_flags r) = num_envs"
    by (simp_all add: well_shaped_def)
  then have "terminated_flags r ! idx \<or> \<not> truncated_flags r ! idx"
    using assms(2) by (auto simp: list_all_length)
  with assms(3) show ?thesis by simp
next
  case (Some arrays)
  with assms(1,2) show ?thesis
    by (simp add: well_shaped_def final_observation_at_def list_get_def fill_final_observation_def)
qed

lemma finish_loop_calls:
  assumes "well_shaped num_envs r"
    and "\<forall>x \<in> set xs. fst x < num_envs \<and> fst (snd x) = terminated_flags r ! fst x \<and>
             snd (snd x) = truncated_flags r ! fst x"
  shows "finish_loop critic obs_dim epoch_end r xs calls =
           Inr (calls @ map (\<lambda>x. (fst x, slot_bootstrap critic obs_dim r (fst x)))
                          (filter (\<lambda>x. epoch_end \<or> fst (snd x) \<or> snd (snd x)) xs))"
  using assms(2)
proof (induction xs arbitrary: calls)
  case Nil
  then show ?case by simp
next
  case (Cons x xs)
  obtain idx dn tout where x: "x = (idx, dn, tout)" by (cases x) auto
  from Cons.prems x have idx: "idx < num_envs"
    and d: "dn = terminated_flags r ! idx" and t: "tout = truncated_flags r ! idx"
    by auto
  have IH: "finish_loop critic obs_dim epoch_end r xs c =
           Inr (c @ map (\<lambda>x. (fst x, slot_bootstrap critic obs_dim r (fst x)))
                          (filter (\<lambda>x. epoch_end \<or> fst (snd x) \<or> snd (snd x)) xs))" for c
    using Cons.IH Cons.prems by simp
  show ?case
  proof (cases "epoch_end \<or> dn \<or> tout")
    case False
    then show ?thesis using x IH by simp
  next
    case True
    have ob: "list_get (next_obs r) idx = Inr (next_obs r ! idx)"
      using assms(1) idx by (simp add: well_shaped_def list_get_def)
    have fin: "\<not> dn \<and> tout \<longrightarrow>
        final_observation_at obs_dim r idx =
          Inr (case final_observation_at obs_dim r idx of Inr f \<Rightarrow> f | Inl e \<Rightarrow> [])"
      using final_observation_at_defined[OF assms(1) idx, of obs_dim] d t by auto
    have lv: "last_values critic epoch_end dn tout (list_get (next_obs r) idx)
                (final_observation_at obs_dim r idx) = Inr (slot_bootstrap critic obs_dim r idx)"
      unfolding ob slot_bootstrap_def d[symmetric] t[symmetric]
      by (rule last_values_rule[OF True fin])
    obtain a b where ab: "slot_bootstrap critic obs_dim r idx = (a, b)"
      by (cases "slot_bootstrap critic obs_dim r idx") auto
    show ?thesis using True x lv ab IH by simp
  qed
qed

lemma enumerate_flags_shape:
  assumes "well_shaped num_envs r"
  shows "enumerate_flags r =
           map (\<lambda>i. (i, terminated_flags r ! i, truncated_flags r ! i)) [0..<num_envs]"
  using assms
  by (intro nth_equalityI) (simp_all add: enumerate_flags_def well_shaped_def)

lemma step_finish_calls_shape:
  assumes "well_shaped num_envs r"
  shows "step_finish_calls critic obs_dim n steps r calls =
           Inr (calls @ map (\<lambda>idx. (idx, slot_bootstrap critic obs_dim r idx))
                          (filter (has_boundary n steps r) [0..<num_envs]))"
proof -
  have "finish_loop critic obs_dim (steps \<ge> n - 1) r (enumerate_flags r) calls =
           Inr (calls @ map (\<lambda>x. (fst x, slot_bootstrap critic obs_dim r (fst x)))
                          (filter (\<lambda>x. (steps \<ge> n - 1) \<or> fst (snd x) \<or> snd (snd x)) (enumerate_flags r)))"
    by (rule finish_loop_calls[OF assms]) (auto simp: enumerate_flags_shape[OF assms])
  moreover have "has_boundary n steps r =
      (\<lambda>x. n - 1 \<le> steps \<or> terminated_flags r ! x \<or> truncated_flags r ! x)"
    by (auto simp: has_boundary_def fun_eq_iff)
  ultimately show ?thesis
    by (simp add: step_finish_calls_def enumerate_flags_shape[OF assms] filter_map comp_def)
qed

lemma calls_for_step:
  "calls_for idx (map (\<lambda>i. (i, f i)) (filter P [0..<m])) = (if idx < m \<and> P idx then 1 else 0)"
proof -
  have "filter (\<lambda>c. fst c = idx) (map (\<lambda>i. (i, f i)) (filter P [0..<m])) =
          map (\<lambda>i. (i, f i)) (filter (\<lambda>i. i = idx \<and> P i) [0..<m])"
    by (induction m) (auto simp: filter_map comp_def)
  moreover have "length (filter (\<lambda>i. i = idx \<and> P i) [0..<m]) = (if idx < m \<and> P idx then 1 else 0)"
    by (induction m) auto
  ultimately show ?thesis by (simp add: calls_for_def)
qed

lemma calls_for_append: "calls_for idx (xs @ ys) = calls_for idx xs + calls_for idx ys"
  by (simp add: calls_for_def)

lemma rollout_loop_calls:
  assumes "\<forall>s \<in> set ss. well_shaped num_envs (trace s)"
  shows "\<exists>new. rollout_loop critic obs_dim n trace ss calls = Inr (calls @ new) \<and>
           (\<forall>idx < num_envs. calls_for idx new =
              length (filter (\<lambda>s. has_boundary n (int s) (trace s) idx) ss))"
  using assms
proof (induction ss arbitrary: calls)
  case Nil
  then show ?case by (simp add: calls_for_def)
next
  case (Cons s ss)
  let ?c1 = "map (\<lambda>idx. (idx, slot_bootstrap critic obs_dim (trace s) idx))
                          (filter (has_boundary n (int s) (trace s)) [0..<num_envs])"
  have ws: "well_shaped num_envs (trace s)" using Cons.prems by simp
  have st: "step_finish_calls critic obs_dim n (int s) (trace s) calls = Inr (calls @ ?c1)"
    by (rule step_finish_calls_shape[OF ws])
  from Cons.IH[of "calls @ ?c1"] Cons.prems obtain new where
    new: "rollout_loop critic obs_dim n trace ss (calls @ ?c1) = Inr ((calls @ ?c1) @ new)"
    and cnt: "\<forall>idx < num_envs. calls_for idx new =
              length (filter (\<lambda>s. has_boundary n (int s) (trace s) idx) ss)"
    by auto
  have "rollout_loop critic obs_dim n trace (s # ss) calls = Inr (calls @ (?c1 @ new))"
    using st new by simp
  moreover have "\<forall>idx < num_envs. calls_for idx (?c1 @ new) =
              length (filter (\<lambda>s. has_boundary n (int s) (trace s) idx) (s # ss))"
    using cnt by (simp add: calls_for_append calls_for_step)
  ultimately show ?case by blast
qed

lemma boundary_count:
  assumes "0 < n"
  shows "length (filter (\<lambda>s. has_boundary (int n) (int s) (trace s) idx) [0..<n]) =
           Suc (length (filter (\<lambda>s. terminated_flags (trace s) ! idx \<or> truncated_flags (trace s) ! idx)
                          [0..<n - 1]))"
proof -
  obtain m where n: "n = Suc m" using assms by (cases n) auto
  have "filter (\<lambda>s. has_boundary (int n) (int s) (trace s) idx) [0..<m] =
        filter (\<lambda>s. terminated_flags (trace s) ! idx \<or> truncated_flags (trace s) ! idx) [0..<m]"
    by (rule filter_cong) (auto simp: has_boundary_def n)
  moreover have "has_boundary (int n) (int m) (trace m) idx"
    by (simp add: has_boundary_def n)
  ultimately show ?thesis by (simp add: n)
qed

lemma slot_bootstrap_rules:
  "slot_bootstrap critic obs_dim r idx =
     (if terminated_flags r ! idx then (0, 0)
      else if truncated_flags r ! idx
      then critic (case final_observation_at obs_dim r idx of Inr f \<Rightarrow> f | Inl e \<Rightarrow> [])
      else critic (next_obs r ! idx))"
  by (simp add: slot_bootstrap_def bootstrap_def boundary_of_def)

lemma final_observation_at_filled:
  assumes "final_observation r = Some arrays" "idx < length arrays"
  shows "final_observation_at obs_dim r idx =
           Inr (case arrays ! idx of Some a \<Rightarrow> a | None \<Rightarrow> replicate obs_dim 0)"
  using assms by (simp add: final_observation_at_def list_get_def fill_final_observation_def)

text \<open>
  Claim C4, as amended. With one entry per slot in the results of every step of an epoch
  of \<open>n\<close> steps: at each step, \<open>finish_path\<close> is called exactly for the slots that have a
  boundary there (the epoch ends, or the slot is terminated or truncated), once each, in
  the order of the slots, with the bootstrap pair that one of the three rules gives:
  zero when the slot is terminated; else the critic at the final observation (a zero
  vector where that entry is absent) when it is truncated; else the critic at the current
  observation. Over the epoch a slot gets one call per step with a boundary: when
  \<open>n > 0\<close>, one for the last step plus one for every earlier step at which it was
  terminated or truncated.
\<close>

theorem finish_path_once_per_boundary:
  assumes "\<forall>s < n. well_shaped num_envs (trace s)" and "idx < num_envs"
  shows "(\<forall>s < n. \<forall>calls.
            step_finish_calls critic obs_dim (int n) (int s) (trace s) calls =
              Inr (calls @ map (\<lambda>i. (i, slot_bootstrap critic obs_dim (trace s) i))
                             (filter (has_boundary (int n) (int s) (trace s)) [0..<num_envs]))) \<and>
         (\<forall>r i. slot_bootstrap critic obs_dim r i =
            (if terminated_flags r ! i then (0, 0)
             else if truncated_flags r ! i
             then critic (case final_observation_at obs_dim r i of Inr f \<Rightarrow> f | Inl e \<Rightarrow> [])
             else critic (next_obs r ! i))) \<and>
         (\<forall>r arrays i. final_observation r = Some arrays \<and> i < length arrays \<longrightarrow>
            final_observation_at obs_dim r i =
              Inr (case arrays ! i of Some a \<Rightarrow> a | None \<Rightarrow> replicate obs_dim 0)) \<and>
         (\<exists>calls. epoch_finish_calls critic obs_dim n trace = Inr calls \<and>
            calls_for idx calls =
              length (filter (\<lambda>s. has_boundary (int n) (int s) (trace s) idx) [0..<n]) \<and>
            (0 < n \<longrightarrow>
               calls_for idx calls =
                 Suc (length (filter (\<lambda>s. terminated_flags (trace s) ! idx \<or>
                                           truncated_flags (trace s) ! idx) [0..<n - 1]))))"
proof -
  have one: "\<forall>s < n. \<forall>calls.
            step_finish_calls critic obs_dim (int n) (int s) (trace s) calls =
              Inr (calls @ map (\<lambda>i. (i, slot_bootstrap critic obs_dim (trace s) i))
                             (filter (has_boundary (int n) (int s) (trace s)) [0..<num_envs]))"
    using assms(1) step_finish_calls_shape by blast
  have ws: "\<forall>s \<in> set [0..<n]. well_shaped num_envs (trace s)" using assms(1) by simp
  from rollout_loop_calls[OF ws, of critic obs_dim "int n" "[]"] assms(2)
  obtain new where new: "rollout_loop critic obs_dim (int n) trace [0..<n] [] = Inr new"
    and cnt: "calls_for idx new =
              length (filter (\<lambda>s. has_boundary (int n) (int s) (trace s) idx) [0..<n])"
    by auto
  have four: "\<exists>calls. epoch_finish_calls critic obs_dim n trace = Inr calls \<and>
            calls_for idx calls =
              length (filter (\<lambda>s. has_boundary (int n) (int s) (trace s) idx) [0..<n]) \<and>
            (0 < n \<longrightarrow>
               calls_for idx calls =
                 Suc (length (filter (\<lambda>s. terminated_flags (trace s) ! idx \<or>
                                           truncated_flags (trace s) ! idx) [0..<n - 1])))"
    using new cnt boundary_count[of n trace idx] by (simp add: epoch_finish_calls_def)
  show ?thesis
    using one four slot_bootstrap_rules final_observation_at_filled by blast
qed

lemma example_trace_calls:
  "epoch_finish_calls example_critic 1 2 example_trace = Inr [(0, 5, 0), (0, 2, 0)]"
  by (simp add: epoch_finish_calls_def step_finish_calls_def enumerate_flags_def
      example_trace_def example_critic_def last_values_def list_get_def
      final_observation_at_def fill_final_observation_def numeral_2_eq_2)

theorem finish_path_once_per_boundary_witness:
  "epoch_finish_calls example_critic 1 2 example_trace = Inr [(0, 5, 0), (0, 2, 0)] \<and>
   calls_for 0 [(0, 5, 0), (0, 2, 0)] = 2"
proof -
  have ws: "\<forall>s < 2. well_shaped 1 (example_trace s)"
    by (simp add: well_shaped_def example_trace_def)
  have idx: "(0::nat) < 1" by simp
  from finish_path_once_per_boundary[OF ws idx, of example_critic 1]
  obtain calls where c: "epoch_finish_calls example_critic 1 2 example_trace = Inr calls"
    by blast
  have "calls = [(0, 5, 0), (0, 2, 0)]"
    using c unfolding example_trace_calls by simp
  with c show ?thesis by (simp add: calls_for_def)
qed

text \<open>
  The counterexample to the claim as stated: in an epoch of two steps, a slot that is
  truncated at the first step gets a call there and another one at the end of the epoch.
\<close>

theorem finish_path_twice_in_epoch:
  "\<exists>calls. epoch_finish_calls example_critic 1 2 example_trace = Inr calls \<and>
           calls_for 0 calls \<noteq> 1"
  using example_trace_calls by (auto simp: calls_for_def)

section \<open>Properties of the regularizer\<close>

subsection \<open>The Fisher estimate\<close>

lemma square_nonneg: "\<forall>x \<in> set (square g). 0 \<le> x"
  by (auto simp: square_def)

lemma map2_add_nonneg:
  assumes "\<forall>x \<in> set t. (0::real) \<le> x" "\<forall>x \<in> set u. 0 \<le> x"
  shows "\<forall>x \<in> set (map2 (+) t u). 0 \<le> x"
proof
  fix x assume "x \<in> set (map2 (+) t u)"
  then obtain a b where ab: "(a, b) \<in> set (zip t u)" "x = a + b" by auto
  from ab(1) have "a \<in> set t" "b \<in> set u"
    by (auto dest: set_zip_leftD set_zip_rightD)
  with assms have "0 \<le> a" "0 \<le> b" by auto
  with ab(2) show "0 \<le> x" by simp
qed

text \<open>The invariant of the accumulation: distinct keys, non-negative entries.\<close>

lemma accumulate_grad_invariant:
  assumes "distinct (map fst fi)"
    and "\<forall>nm t. map_of fi nm = Some t \<longrightarrow> (\<forall>x \<in> set t. 0 \<le> x)"
  shows "distinct (map fst (accumulate_grad fi name g)) \<and>
         (\<forall>nm t. map_of (accumulate_grad fi name g) nm = Some t \<longrightarrow> (\<forall>x \<in> set t. 0 \<le> x))"
proof (cases "map_of fi name")
  case None
  then show ?thesis using assms square_nonneg
    by (auto simp: accumulate_grad_def distinct_update update_conv' simp del: map_of_eq_Some_iff)
next
  case (Some u)
  then have "\<forall>x \<in> set u. 0 \<le> x" using assms(2) by blast
  then have "\<forall>x \<in> set (map2 (+) u (square g)). 0 \<le> x"
    using square_nonneg by (rule map2_add_nonneg)
  then show ?thesis using assms Some
    by (auto simp: accumulate_grad_def distinct_update update_conv' simp del: map_of_eq_Some_iff)
qed

lemma accumulate_params_invariant:
  assumes "distinct (map fst fi)"
    and "\<forall>nm t. map_of fi nm = Some t \<longrightarrow> (\<forall>x \<in> set t. 0 \<le> x)"
  shows "distinct (map fst (fold (\<lambda>(name, param) fi. accumulate_grad fi name (G name)) ps fi)) \<and>
         (\<forall>nm t. map_of (fold (\<lambda>(name, param) fi. accumulate_grad fi name (G name)) ps fi) nm = Some t
            \<longrightarrow> (\<forall>x \<in> set t. 0 \<le> x))"
  using assms
proof (induction ps arbitrary: fi)
  case Nil
  then show ?case by simp
next
  case (Cons a ps)
  obtain name param where a: "a = (name, param)" by (cases a) auto
  from accumulate_grad_invariant[OF Cons.prems, of name "G name"]
  show ?case unfolding a by (simp only: fold_simps case_prod_conv) (rule Cons.IH, simp_all)
qed

lemma accumulate_pair_invariant:
  assumes "distinct (map fst fi)"
    and "\<forall>nm t. map_of fi nm = Some t \<longrightarrow> (\<forall>x \<in> set t. 0 \<le> x)"
  shows "distinct (map fst (accumulate_pair ops p fi oa)) \<and>
         (\<forall>nm t. map_of (accumulate_pair ops p fi oa) nm = Some t \<longrightarrow> (\<forall>x \<in> set t. 0 \<le> x))"
  unfolding accumulate_pair_def
  by (rule accumulate_params_invariant[OF assms])

lemma accumulate_all_invariant:
  assumes "distinct (map fst fi)"
    and "\<forall>nm t. map_of fi nm = Some t \<longrightarrow> (\<forall>x \<in> set t. 0 \<le> x)"
  shows "distinct (map fst (fold (\<lambda>oa fi. accumulate_pair ops p fi oa) pairs fi)) \<and>
         (\<forall>nm t. map_of (fold (\<lambda>oa fi. accumulate_pair ops p fi oa) pairs fi) nm = Some t
            \<longrightarrow> (\<forall>x \<in> set t. 0 \<le> x))"
  using assms
proof (induction pairs arbitrary: fi)
  case Nil
  then show ?case by simp
next
  case (Cons oa pairs)
  from accumulate_pair_invariant[OF Cons.prems, of ops p oa]
  show ?case by (simp only: fold_simps) (rule Cons.IH, simp_all)
qed

lemma compute_fisher_info_nonneg:
  assumes "(nm, t) \<in> set (compute_fisher_info ops data p)" "x \<in> set t"
  shows "0 \<le> x"
proof -
  let ?fi = "fold (\<lambda>oa fi. accumulate_pair ops p fi oa) (zip (obs data) (act data)) []"
  have inv: "distinct (map fst ?fi)"
    "\<forall>nm t. map_of ?fi nm = Some t \<longrightarrow> (\<forall>x \<in> set t. 0 \<le> x)"
    using accumulate_all_invariant[of "[]" ops p "zip (obs data) (act data)"] by simp_all
  from assms(1) obtain u where u: "(nm, u) \<in> set ?fi"
    and t: "t = map (\<lambda>x. x / real (length (obs data))) u"
    by (auto simp: compute_fisher_info_def Let_def)
  from u inv(1) have "map_of ?fi nm = Some u" by simp
  with inv(2) have "\<forall>y \<in> set u. 0 \<le> y" by blast
  with assms(2) t show ?thesis by auto
qed

lemma map_of_accumulate_grad:
  "map_of (accumulate_grad fi name g) nm =
     (if nm = name then add_square (map_of fi name) g else map_of fi nm)"
  by (cases "map_of fi name") (simp_all add: accumulate_grad_def update_conv' add_square_def)

lemma map_of_accumulate_params:
  assumes "distinct (map fst ps)"
  shows "map_of (fold (\<lambda>(name, param) fi. accumulate_grad fi name (G name)) ps fi) nm =
           (if nm \<in> fst ` set ps then add_square (map_of fi nm) (G nm) else map_of fi nm)"
  using assms
proof (induction ps arbitrary: fi)
  case Nil
  then show ?case by simp
next
  case (Cons a ps)
  obtain name param where a: "a = (name, param)" by (cases a) auto
  from Cons.prems a have d: "distinct (map fst ps)" and notin: "name \<notin> fst ` set ps"
    by auto
  have "map_of (fold (\<lambda>(name, param) fi. accumulate_grad fi name (G name)) (a # ps) fi) nm =
        map_of (fold (\<lambda>(name, param) fi. accumulate_grad fi name (G name)) ps
                  (accumulate_grad fi name (G name))) nm"
    by (simp add: a)
  also have "\<dots> = (if nm \<in> fst ` set ps
                   then add_square (map_of (accumulate_grad fi name (G name)) nm) (G nm)
                   else map_of (accumulate_grad fi name (G name)) nm)"
    by (rule Cons.IH[OF d])
  also have "\<dots> = (if nm \<in> fst ` set (a # ps) then add_square (map_of fi nm) (G nm) else map_of fi nm)"
    using notin by (auto simp: a map_of_accumulate_grad)
  finally show ?case .
qed

lemma map_of_accumulate_pairs:
  assumes "distinct (map fst (named_parameters ops p))"
    and "nm \<in> fst ` set (named_parameters ops p)"
  shows "map_of (fold (\<lambda>oa fi. accumulate_pair ops p fi oa) pairs fi) nm =
           fold (\<lambda>oa entry. add_square entry (grad_log_prob ops p (fst oa) (snd oa) nm)) pairs
             (map_of fi nm)"
proof (induction pairs arbitrary: fi)
  case Nil
  then show ?case by simp
next
  case (Cons oa pairs)
  have "map_of (accumulate_pair ops p fi oa) nm =
          add_square (map_of fi nm) (grad_log_prob ops p (fst oa) (snd oa) nm)"
    unfolding accumulate_pair_def
    using map_of_accumulate_params[OF assms(1), of "\<lambda>name. grad_log_prob ops p (fst oa) (snd oa) name" fi nm]
      assms(2) by simp
  then show ?case using Cons.IH[of "accumulate_pair ops p fi oa"] by simp
qed

lemma fold_add_square:
  assumes "\<forall>oa \<in> set pairs. length (G oa) = L"
  shows "fold (\<lambda>oa entry. add_square entry (G oa)) pairs None =
           (if pairs = [] then None
            else Some (map (\<lambda>j. \<Sum>oa\<leftarrow>pairs. (G oa ! j) ^ 2) [0..<L]))"
  using assms
proof (induction pairs rule: rev_induct)
  case Nil
  then show ?case by simp
next
  case (snoc oa pairs)
  then have len: "length (G oa) = L" and rest: "\<forall>oa \<in> set pairs. length (G oa) = L" by auto
  have sq: "square (G oa) = map (\<lambda>j. (G oa ! j) ^ 2) [0..<L]"
    using len by (intro nth_equalityI) (simp_all add: square_def)
  show ?case
  proof (cases "pairs = []")
    case True
    then show ?thesis by (simp add: add_square_def sq)
  next
    case False
    have "map2 (+) (map (\<lambda>j. \<Sum>oa\<leftarrow>pairs. (G oa ! j) ^ 2) [0..<L]) (map (\<lambda>j. (G oa ! j) ^ 2) [0..<L]) =
          map (\<lambda>j. \<Sum>oa\<leftarrow>pairs @ [oa]. (G oa ! j) ^ 2) [0..<L]"
      by (intro nth_equalityI) simp_all
    then show ?thesis using False snoc.IH[OF rest] by (simp add: add_square_def sq)
  qed
qed

lemma compute_fisher_info_mean:
  assumes "distinct (map fst (named_parameters ops p))"
    and "nm \<in> fst ` set (named_parameters ops p)"
    and "zip (obs data) (act data) \<noteq> []"
    and "\<forall>oa \<in> set (zip (obs data) (act data)). length (grad_log_prob ops p (fst oa) (snd oa) nm) = L"
  shows "dict_get (compute_fisher_info ops data p) nm =
           Inr (map (\<lambda>j. (\<Sum>oa\<leftarrow>zip (obs data) (act data).
                            (grad_log_prob ops p (fst oa) (snd oa) nm ! j) ^ 2)
                         / real (length (obs data))) [0..<L])"
proof -
  let ?pairs = "zip (obs data) (act data)"
  let ?fi = "fold (\<lambda>oa fi. accumulate_pair ops p fi oa) ?pairs []"
  have "map_of ?fi nm =
          fold (\<lambda>oa entry. add_square entry (grad_log_prob ops p (fst oa) (snd oa) nm)) ?pairs None"
    using map_of_accumulate_pairs[OF assms(1,2), of ?pairs "[]"] by simp
  also have "\<dots> = Some (map (\<lambda>j. \<Sum>oa\<leftarrow>?pairs. (grad_log_prob ops p (fst oa) (snd oa) nm ! j) ^ 2) [0..<L])"
    using fold_add_square[OF assms(4)] assms(3) by simp
  finally have "map_of ?fi nm =
      Some (map (\<lambda>j. \<Sum>oa\<leftarrow>?pairs. (grad_log_prob ops p (fst oa) (snd oa) nm ! j) ^ 2) [0..<L])" .
  then show ?thesis
    by (simp add: compute_fisher_info_def Let_def dict_get_def map_of_map comp_def)
qed

subsection \<open>The task switch\<close>

lemma py_index_bound: "py_index n i = Inr j \<Longrightarrow> j < n"
  by (auto simp: py_index_def split: if_splits)

lemma list_set_Inr:
  "list_set xs i v = Inr ys \<Longrightarrow> \<exists>j < length xs. py_index (length xs) i = Inr j \<and> ys = xs[j := v]"
  by (auto simp: list_set_def py_index_bound split: sum.splits)

lemma task_switch_waits:
  assumes "\<not> steps_per_task cfg \<le> main_steps_since_change tr + steps_per_epoch cfg"
  shows "task_switch ops get cfg tr =
           Inr (tr\<lparr>main_steps_since_change := main_steps_since_change tr + steps_per_epoch cfg\<rparr>)"
  using assms by (simp add: task_switch_def Let_def)

lemma task_switch_fires:
  assumes "steps_per_task cfg \<le> main_steps_since_change tr + steps_per_epoch cfg"
    and "task_switch ops get cfg tr = Inr tr'"
  shows "\<exists>t j k. list_get (tasks cfg) (current_task_index tr) = Inr t \<and>
           j < length (fisher_matrices tr) \<and> py_index (length (fisher_matrices tr)) t = Inr j \<and>
           k < length (old_params_list tr) \<and> py_index (length (old_params_list tr)) t = Inr k \<and>
           tr' = tr\<lparr>buffer := snd (get (buffer tr)),
                    fisher_matrices := (fisher_matrices tr)
                      [j := Some (compute_fisher_info ops (fst (get (buffer tr))) (policy tr))],
                    old_params_list := (old_params_list tr)
                      [k := Some (save_old_params (named_parameters ops (policy tr)))],
                    current_task_index := (current_task_index tr + 1) mod length (tasks cfg),
                    main_steps_since_change := 0,
                    task_switches := task_switches tr + 1\<rparr>"
proof -
  obtain data buf' where g: "get (buffer tr) = (data, buf')" by (cases "get (buffer tr)") auto
  from assms obtain t fm opl where t: "list_get (tasks cfg) (current_task_index tr) = Inr t"
    and fm: "list_set (fisher_matrices tr) t (Some (compute_fisher_info ops data (policy tr))) = Inr fm"
    and opl: "list_set (old_params_list tr) t
                (Some (save_old_params (named_parameters ops (policy tr)))) = Inr opl"
    and tr': "tr' = tr\<lparr>buffer := buf', fisher_matrices := fm, old_params_list := opl,
                    current_task_index := (current_task_index tr + 1) mod length (tasks cfg),
                    main_steps_since_change := 0,
                    task_switches := task_switches tr + 1\<rparr>"
    by (auto simp: task_switch_def Let_def g split: sum.splits)
  from list_set_Inr[OF fm] list_set_Inr[OF opl] t tr' g show ?thesis by auto
qed

subsection \<open>Fisher records\<close>

text \<open>
  Claim C9. Every entry of every tensor of the record that \<open>compute_fisher_info\<close>
  returns is non-negative. When the parameter names are distinct, the batch has as many
  observations as actions and at least one, and the gradients of a parameter all have
  its shape (\<open>L\<close> entries), the tensor of that parameter holds at each position the sum
  over the processed pairs of the squared gradient entry, divided by the pair count.
  A task switch that fires writes the new record into the slot of the current task id,
  whatever the slot held: the new content is the fresh estimate alone, each slot holds
  one record or none, and the other slots keep theirs.
\<close>

theorem fisher_record_nonneg_mean_replaced:
  "(\<forall>(nm, t) \<in> set (compute_fisher_info ops data p). \<forall>x \<in> set t. 0 \<le> x) \<and>
   (distinct (map fst (named_parameters ops p)) \<and> name \<in> fst ` set (named_parameters ops p) \<and>
    length (obs data) = length (act data) \<and> obs data \<noteq> [] \<and>
    (\<forall>oa \<in> set (zip (obs data) (act data)).
        length (grad_log_prob ops p (fst oa) (snd oa) name) = L) \<longrightarrow>
      dict_get (compute_fisher_info ops data p) name =
        Inr (map (\<lambda>j. (\<Sum>oa\<leftarrow>zip (obs data) (act data).
                           (grad_log_prob ops p (fst oa) (snd oa) name ! j) ^ 2)
                        / real (length (zip (obs data) (act data)))) [0..<L])) \<and>
   (steps_per_task cfg \<le> main_steps_since_change tr + steps_per_epoch cfg \<and>
    task_switch ops' get cfg tr = Inr tr' \<longrightarrow>
      (\<exists>t j. list_get (tasks cfg) (current_task_index tr) = Inr t \<and>
         py_index (length (fisher_matrices tr)) t = Inr j \<and> j < length (fisher_matrices tr) \<and>
         fisher_matrices tr' ! j =
           Some (compute_fisher_info ops' (fst (get (buffer tr))) (policy tr)) \<and>
         length (fisher_matrices tr') = length (fisher_matrices tr) \<and>
         (\<forall>i < length (fisher_matrices tr). i \<noteq> j \<longrightarrow>
            fisher_matrices tr' ! i = fisher_matrices tr ! i)))"
proof (intro conjI impI)
  show "\<forall>(nm, t) \<in> set (compute_fisher_info ops data p). \<forall>x \<in> set t. 0 \<le> x"
    using compute_fisher_info_nonneg by fastforce
next
  assume h: "distinct (map fst (named_parameters ops p)) \<and> name \<in> fst ` set (named_parameters ops p) \<and>
    length (obs data) = length (act data) \<and> obs data \<noteq> [] \<and>
    (\<forall>oa \<in> set (zip (obs data) (act data)).
        length (grad_log_prob ops p (fst oa) (snd oa) name) = L)"
  then have ne: "zip (obs data) (act data) \<noteq> []"
    by (cases "obs data"; cases "act data") auto
  have len: "length (zip (obs data) (act data)) = length (obs data)" using h by simp
  show "dict_get (compute_fisher_info ops data p) name =
        Inr (map (\<lambda>j. (\<Sum>oa\<leftarrow>zip (obs data) (act data).
                           (grad_log_prob ops p (fst oa) (snd oa) name ! j) ^ 2)
                        / real (length (zip (obs data) (act data)))) [0..<L])"
    unfolding len using compute_fisher_info_mean[OF _ _ ne, of ops p name L] h by blast
next
  assume "steps_per_task cfg \<le> main_steps_since_change tr + steps_per_epoch cfg \<and>
    task_switch ops' get cfg tr = Inr tr'"
  then obtain t j k where "list_get (tasks cfg) (current_task_index tr) = Inr t"
    "j < length (fisher_matrices tr)" "py_index (length (fisher_matrices tr)) t = Inr j"
    "fisher_matrices tr' = (fisher_matrices tr)
                      [j := Some (compute_fisher_info ops' (fst (get (buffer tr))) (policy tr))]"
    using task_switch_fires[of cfg tr ops' get tr'] by auto
  then show "\<exists>t j. list_get (tasks cfg) (current_task_index tr) = Inr t \<and>
         py_index (length (fisher_matrices tr)) t = Inr j \<and> j < length (fisher_matrices tr) \<and>
         fisher_matrices tr' ! j =
           Some (compute_fisher_info ops' (fst (get (buffer tr))) (policy tr)) \<and>
         length (fisher_matrices tr') = length (fisher_matrices tr) \<and>
         (\<forall>i < length (fisher_matrices tr). i \<noteq> j \<longrightarrow>
            fisher_matrices tr' ! i = fisher_matrices tr ! i)"
    by auto
qed

lemma example_fisher:
  "compute_fisher_info example_policy_ops example_batch 1 = [(''w'', [4])]"
  by (simp add: compute_fisher_info_def accumulate_pair_def accumulate_grad_def square_def
      example_policy_ops_def example_batch_def Let_def)

lemma example_switch:
  "task_switch example_policy_ops (\<lambda>b. (b, b)) example_config revisiting_trainer =
     Inr (revisiting_trainer\<lparr>fisher_matrices := [Some [(''w'', [4])], None, None],
            old_params_list := [Some [(''w'', [1])], None, None],
            current_task_index := 1, main_steps_since_change := 0, task_switches := 4\<rparr>)"
proof -
  have np: "named_parameters example_policy_ops 1 = [(''w'', [1])]"
    by (simp add: example_policy_ops_def)
  show ?thesis
    by (simp add: task_switch_def example_config_def revisiting_trainer_def list_get_def
      list_set_def py_index_def example_fisher np save_old_params_def Let_def)
qed

theorem fisher_record_nonneg_mean_replaced_witness:
  "dict_get (compute_fisher_info example_policy_ops example_batch 1) ''w'' = Inr [4] \<and>
   fisher_matrices revisiting_trainer ! 0 = Some [(''w'', [9])] \<and>
   (\<exists>tr'. task_switch example_policy_ops (\<lambda>b. (b, b)) example_config revisiting_trainer = Inr tr' \<and>
       fisher_matrices tr' ! 0 = Some [(''w'', [4])])"
proof -
  have h: "distinct (map fst (named_parameters example_policy_ops (1::real))) \<and>
    ''w'' \<in> fst ` set (named_parameters example_policy_ops (1::real)) \<and>
    length (obs example_batch) = length (act example_batch) \<and> obs example_batch \<noteq> [] \<and>
    (\<forall>oa \<in> set (zip (obs example_batch) (act example_batch)).
        length (grad_log_prob example_policy_ops 1 (fst oa) (snd oa) ''w'') = 1)"
    by (simp add: example_policy_ops_def example_batch_def)
  have f: "steps_per_task example_config
             \<le> main_steps_since_change revisiting_trainer + steps_per_epoch example_config"
    by (simp add: example_config_def revisiting_trainer_def)
  from fisher_record_nonneg_mean_replaced[where ops = example_policy_ops and data = example_batch
      and p = 1 and name = "''w''" and L = 1 and cfg = example_config and tr = revisiting_trainer
      and ops' = example_policy_ops and get = "\<lambda>b. (b, b)"] h
  have a: "dict_get (compute_fisher_info example_policy_ops example_batch 1) ''w'' =
        Inr (map (\<lambda>j. (\<Sum>oa\<leftarrow>zip (obs example_batch) (act example_batch).
                           (grad_log_prob example_policy_ops 1 (fst oa) (snd oa) ''w'' ! j) ^ 2)
                        / real (length (zip (obs example_batch) (act example_batch)))) [0..<1])"
    by blast
  have b: "dict_get (compute_fisher_info example_policy_ops example_batch 1) ''w'' = Inr [4]"
    unfolding a by (simp add: example_policy_ops_def example_batch_def)
  have c: "fisher_matrices revisiting_trainer ! 0 = Some [(''w'', [9])]"
    by (simp add: revisiting_trainer_def)
  have d: "\<exists>tr'. task_switch example_policy_ops (\<lambda>b. (b, b)) example_config revisiting_trainer = Inr tr' \<and>
       fisher_matrices tr' ! 0 = Some [(''w'', [4])]"
    unfolding example_switch by simp
  from b c d show ?thesis by blast
qed

subsection \<open>The penalty\<close>

lemma penalty_loop_no_records:
  assumes "list_all (\<lambda>x. fst x = None) xs"
  shows "penalty_loop xs params ewc = Inr ewc"
  using assms
proof (induction xs)
  case Nil
  then show ?case by simp
next
  case (Cons x xs)
  then obtain old where "x = (None, old)" by (cases x) auto
  with Cons show ?case by simp
qed

lemma penalty_loop_one_record:
  assumes "list_all (\<lambda>x. fst x = None) xs" "j < length xs"
  shows "penalty_loop (xs[j := (Some fisher_info, old_params)]) params ewc =
           penalty_of_task fisher_info old_params params ewc"
  using assms
proof (induction xs arbitrary: j)
  case Nil
  then show ?case by simp
next
  case (Cons x xs)
  then obtain old where x: "x = (None, old)" by (cases x) auto
  show ?case
  proof (cases j)
    case 0
    have "penalty_loop xs params v = Inr v" for v
      using Cons.prems(1) by (intro penalty_loop_no_records) simp
    then show ?thesis using 0 by (simp split: sum.splits)
  next
    case (Suc i)
    then show ?thesis using Cons x by simp
  qed
qed

lemma weighted_sq_dist_same: "weighted_sq_dist fisher param param = 0"
proof -
  have "map2 (*) fisher (square (map2 (-) param param)) = map (\<lambda>x. 0) (zip fisher (zip param param))"
    by (intro nth_equalityI) (simp_all add: square_def)
  then show ?thesis by (simp add: weighted_sq_dist_def)
qed

lemma penalty_of_task_at_anchor:
  assumes "\<forall>(name, param) \<in> set ps. map_of anchor name = Some param \<and> name \<in> fst ` set fisher_info"
  shows "penalty_of_task fisher_info (Some anchor) ps ewc = Inr ewc"
  using assms
proof (induction ps arbitrary: ewc)
  case Nil
  then show ?case by simp
next
  case (Cons a ps)
  obtain name param where a: "a = (name, param)" by (cases a) auto
  from Cons.prems a have an: "map_of anchor name = Some param" and "name \<in> fst ` set fisher_info"
    by auto
  then obtain fisher where f: "map_of fisher_info name = Some fisher"
    by (metis domD dom_map_of_conv_image_fst)
  have "penalty_of_task fisher_info (Some anchor) ps v = Inr v" for v
    using Cons by auto
  then show ?case
    by (simp add: a dict_get_def an f weighted_sq_dist_same)
qed

lemma fold_update_other:
  assumes "name \<notin> fst ` set ps"
  shows "map_of (fold (\<lambda>(name, param) d. AList.update name param d) ps d) name = map_of d name"
  using assms by (induction ps arbitrary: d) (auto simp: update_conv')

lemma map_of_save_old_params:
  assumes "distinct (map fst ps)" "(name, param) \<in> set ps"
  shows "map_of (save_old_params ps) name = Some param"
proof -
  have "map_of (fold (\<lambda>(name, param) d. AList.update name param d) ps d) name = Some param" for d
    using assms
  proof (induction ps arbitrary: d)
    case Nil
    then show ?case by simp
  next
    case (Cons a ps)
    obtain n p where a: "a = (n, p)" by (cases a) auto
    show ?case
    proof (cases "(name, param) = (n, p)")
      case True
      with Cons.prems a have "name \<notin> fst ` set ps" by auto
      from fold_update_other[OF this] True show ?thesis by (simp add: a update_conv')
    next
      case False
      with Cons.prems a have "(name, param) \<in> set ps" "distinct (map fst ps)" by auto
      with Cons.IH show ?thesis by (simp add: a)
    qed
  qed
  then show ?thesis by (simp add: save_old_params_def)
qed

lemma ewc_loss_no_records:
  "list_all (\<lambda>f. f = None) fm \<Longrightarrow> ewc_loss fm opl params = Inr 0"
  unfolding ewc_loss_def
  by (rule penalty_loop_no_records) (auto simp: list_all_iff dest: set_zip_leftD)

lemma fold_add_square_defined:
  assumes "pairs \<noteq> []"
  shows "fold (\<lambda>oa entry. add_square entry (G oa)) pairs e \<noteq> None"
  using assms by (cases pairs rule: rev_cases) (simp_all add: add_square_def)

text \<open>
  After at least one pair, the record has an entry for every named parameter; without
  any pair it has none.
\<close>

lemma compute_fisher_info_keys:
  assumes "distinct (map fst (named_parameters ops p))"
    and "nm \<in> fst ` set (named_parameters ops p)"
    and "zip (obs data) (act data) \<noteq> []"
  shows "nm \<in> fst ` set (compute_fisher_info ops data p)"
proof -
  let ?pairs = "zip (obs data) (act data)"
  let ?fi = "fold (\<lambda>oa fi. accumulate_pair ops p fi oa) ?pairs []"
  have "map_of ?fi nm =
          fold (\<lambda>oa entry. add_square entry (grad_log_prob ops p (fst oa) (snd oa) nm)) ?pairs None"
    using map_of_accumulate_pairs[OF assms(1,2), of ?pairs "[]"] by simp
  with fold_add_square_defined[OF assms(3)] obtain t where "map_of ?fi nm = Some t"
    by fastforce
  then have "(nm, t) \<in> set ?fi" by (rule map_of_SomeD)
  then have "nm \<in> fst ` set ?fi" by force
  then show ?thesis by (simp add: compute_fisher_info_def Let_def image_image case_prod_beta)
qed

lemma compute_fisher_info_no_pairs:
  assumes "zip (obs data) (act data) = []"
  shows "compute_fisher_info ops data p = []"
  unfolding compute_fisher_info_def Let_def assms by simp

lemma ewc_loss_after_first_switch:
  assumes none: "list_all (\<lambda>f. f = None) (fisher_matrices tr)"
    and len: "length (fisher_matrices tr) = length (old_params_list tr)"
    and dist: "distinct (map fst (named_parameters ops (policy tr)))"
    and pairs: "zip (obs (fst (get (buffer tr)))) (act (fst (get (buffer tr)))) \<noteq> []"
    and fires: "steps_per_task cfg \<le> main_steps_since_change tr + steps_per_epoch cfg"
    and sw: "task_switch ops get cfg tr = Inr tr'"
  shows "ewc_loss (fisher_matrices tr') (old_params_list tr') (named_parameters ops (policy tr')) = Inr 0"
proof -
  let ?F = "compute_fisher_info ops (fst (get (buffer tr))) (policy tr)"
  let ?A = "save_old_params (named_parameters ops (policy tr))"
  from task_switch_fires[OF fires sw] obtain t j k where
    j: "j < length (fisher_matrices tr)" "py_index (length (fisher_matrices tr)) t = Inr j"
    and k: "py_index (length (old_params_list tr)) t = Inr k"
    and fm: "fisher_matrices tr' = (fisher_matrices tr)[j := Some ?F]"
    and opl: "old_params_list tr' = (old_params_list tr)[k := Some ?A]"
    and pol: "policy tr' = policy tr"
    by auto
  have kj: "k = j" using j(2) k len by simp
  have z: "zip (fisher_matrices tr') (old_params_list tr') =
             (zip (fisher_matrices tr) (old_params_list tr))[j := (Some ?F, Some ?A)]"
    unfolding fm opl kj by (simp add: zip_update)
  have allnone: "list_all (\<lambda>x. fst x = None) (zip (fisher_matrices tr) (old_params_list tr))"
    using none by (auto simp: list_all_iff dest: set_zip_leftD)
  have jz: "j < length (zip (fisher_matrices tr) (old_params_list tr))"
    using j(1) len by simp
  have "ewc_loss (fisher_matrices tr') (old_params_list tr') (named_parameters ops (policy tr')) =
          penalty_of_task ?F (Some ?A) (named_parameters ops (policy tr)) 0"
    unfolding ewc_loss_def z pol by (rule penalty_loop_one_record[OF allnone jz])
  also have "\<dots> = Inr 0"
  proof (rule penalty_of_task_at_anchor, clarify)
    fix name param assume np: "(name, param) \<in> set (named_parameters ops (policy tr))"
    have "map_of ?A name = Some param" by (rule map_of_save_old_params[OF dist np])
    moreover have "name \<in> fst ` set ?F"
      by (rule compute_fisher_info_keys[OF dist _ pairs]) (use np in force)
    ultimately show "map_of ?A name = Some param \<and> name \<in> fst ` set ?F" by simp
  qed
  finally show ?thesis .
qed

text \<open>
  Why the batch of the switch has to hold a pair: from a batch without any pair the
  record is the empty dictionary, and the look-up \<open>fisher_info[name]\<close> of line 365 fails
  for the first named parameter.
\<close>

lemma ewc_loss_after_switch_without_pairs:
  assumes none: "list_all (\<lambda>f. f = None) (fisher_matrices tr)"
    and len: "length (fisher_matrices tr) = length (old_params_list tr)"
    and params: "named_parameters ops (policy tr) \<noteq> []"
    and pairs: "zip (obs (fst (get (buffer tr)))) (act (fst (get (buffer tr)))) = []"
    and fires: "steps_per_task cfg \<le> main_steps_since_change tr + steps_per_epoch cfg"
    and sw: "task_switch ops get cfg tr = Inr tr'"
  shows "ewc_loss (fisher_matrices tr') (old_params_list tr') (named_parameters ops (policy tr'))
           = Inl KeyError"
proof -
  let ?A = "save_old_params (named_parameters ops (policy tr))"
  have F: "compute_fisher_info ops (fst (get (buffer tr))) (policy tr) = []"
    by (rule compute_fisher_info_no_pairs[OF pairs])
  from task_switch_fires[OF fires sw] obtain t j k where
    j: "j < length (fisher_matrices tr)" "py_index (length (fisher_matrices tr)) t = Inr j"
    and k: "py_index (length (old_params_list tr)) t = Inr k"
    and fm: "fisher_matrices tr' = (fisher_matrices tr)[j := Some []]"
    and opl: "old_params_list tr' = (old_params_list tr)[k := Some ?A]"
    and pol: "policy tr' = policy tr"
    unfolding F by auto
  have kj: "k = j" using j(2) k len by simp
  have z: "zip (fisher_matrices tr') (old_params_list tr') =
             (zip (fisher_matrices tr) (old_params_list tr))[j := (Some [], Some ?A)]"
    unfolding fm opl kj by (simp add: zip_update)
  have allnone: "list_all (\<lambda>x. fst x = None) (zip (fisher_matrices tr) (old_params_list tr))"
    using none by (auto simp: list_all_iff dest: set_zip_leftD)
  have jz: "j < length (zip (fisher_matrices tr) (old_params_list tr))"
    using j(1) len by simp
  have "ewc_loss (fisher_matrices tr') (old_params_list tr') (named_parameters ops (policy tr')) =
          penalty_of_task [] (Some ?A) (named_parameters ops (policy tr)) 0"
    unfolding ewc_loss_def z pol by (rule penalty_loop_one_record[OF allnone jz])
  also have "\<dots> = Inl KeyError"
    using params by (cases "named_parameters ops (policy tr)") (auto simp: dict_get_def)
  finally show ?thesis .
qed

text \<open>
  Claim C3, as amended. The penalty is exactly 0 as long as no Fisher record is stored.
  It is exactly 0, too, at the first gradient step after the first snapshot, whatever the
  values of the recorded gradients, as soon as the batch read at the switch holds one
  (observation, action) pair, so that a gradient was recorded: the update has not moved
  the parameters yet, so each of them equals its anchor (the parameter names are
  distinct and the two lists of slots have one length, as \<open>named_parameters\<close> and the
  initial values of \<open>main\<close> make them). The term of a parameter that equals its anchor
  is 0.
\<close>

theorem ewc_penalty_zero_until_moved:
  "(list_all (\<lambda>f. f = None) fm \<longrightarrow> ewc_loss fm opl params = Inr 0) \<and>
   (list_all (\<lambda>f. f = None) (fisher_matrices tr) \<and>
    length (fisher_matrices tr) = length (old_params_list tr) \<and>
    distinct (map fst (named_parameters ops (policy tr))) \<and>
    zip (obs (fst (get (buffer tr)))) (act (fst (get (buffer tr)))) \<noteq> [] \<and>
    steps_per_task cfg \<le> main_steps_since_change tr + steps_per_epoch cfg \<and>
    task_switch ops get cfg tr = Inr tr' \<longrightarrow>
      ewc_loss (fisher_matrices tr') (old_params_list tr') (named_parameters ops (policy tr'))
        = Inr 0) \<and>
   weighted_sq_dist fisher param param = 0"
proof (intro conjI impI)
  assume "list_all (\<lambda>f. f = None) fm"
  then show "ewc_loss fm opl params = Inr 0" by (rule ewc_loss_no_records)
next
  assume h: "list_all (\<lambda>f. f = None) (fisher_matrices tr) \<and>
    length (fisher_matrices tr) = length (old_params_list tr) \<and>
    distinct (map fst (named_parameters ops (policy tr))) \<and>
    zip (obs (fst (get (buffer tr)))) (act (fst (get (buffer tr)))) \<noteq> [] \<and>
    steps_per_task cfg \<le> main_steps_since_change tr + steps_per_epoch cfg \<and>
    task_switch ops get cfg tr = Inr tr'"
  show "ewc_loss (fisher_matrices tr') (old_params_list tr') (named_parameters ops (policy tr'))
        = Inr 0"
    by (rule ewc_loss_after_first_switch[of tr ops get cfg tr']) (use h in blast)+
next
  show "weighted_sq_dist fisher param param = 0" by (rule weighted_sq_dist_same)
qed

lemma fresh_trainer_fields:
  "fresh_trainer =
     \<lparr>policy = 1, buffer = example_batch,
      fisher_matrices = [None, None, None], old_params_list = [None, None, None],
      current_task_index = 0, main_steps_since_change = 2, task_switches = 0\<rparr>"
  by (simp add: fresh_trainer_def trainer_init_def example_config_def numeral_3_eq_3)

lemma fresh_switch:
  "task_switch example_policy_ops (\<lambda>b. (b, b)) example_config fresh_trainer =
     Inr \<lparr>policy = 1, buffer = example_batch,
      fisher_matrices = [Some [(''w'', [4])], None, None],
      old_params_list = [Some [(''w'', [1])], None, None],
      current_task_index = 1, main_steps_since_change = 0, task_switches = 1\<rparr>"
proof -
  have np: "named_parameters example_policy_ops 1 = [(''w'', [1])]"
    by (simp add: example_policy_ops_def)
  show ?thesis
    unfolding fresh_trainer_fields
    by (simp add: task_switch_def example_config_def list_get_def
        list_set_def py_index_def example_fisher np save_old_params_def Let_def)
qed

theorem ewc_penalty_zero_until_moved_witness:
  "ewc_loss [None, None, None] [None, None, None] [(''w'', [1])] = Inr 0 \<and>
   (\<exists>tr'. task_switch example_policy_ops (\<lambda>b. (b, b)) example_config fresh_trainer = Inr tr' \<and>
      ewc_loss (fisher_matrices tr') (old_params_list tr')
        (named_parameters example_policy_ops (policy tr')) = Inr 0)"
proof -
  obtain tr' where sw: "task_switch example_policy_ops (\<lambda>b. (b, b)) example_config fresh_trainer = Inr tr'"
    using fresh_switch by simp
  have a: "list_all (\<lambda>f. f = None) [None, None, None :: param_dict option]" by simp
  have np: "named_parameters example_policy_ops 1 = [(''w'', [1])]"
    by (simp add: example_policy_ops_def)
  have b1: "list_all (\<lambda>f. f = None) (fisher_matrices fresh_trainer)"
    unfolding fresh_trainer_fields by simp
  have b2: "length (fisher_matrices fresh_trainer) = length (old_params_list fresh_trainer)"
    unfolding fresh_trainer_fields by simp
  have b3: "distinct (map fst (named_parameters example_policy_ops (policy fresh_trainer)))"
    unfolding fresh_trainer_fields by (simp add: np)
  have b4: "zip (obs (fst ((\<lambda>b. (b, b)) (buffer fresh_trainer))))
              (act (fst ((\<lambda>b. (b, b)) (buffer fresh_trainer)))) \<noteq> []"
    unfolding fresh_trainer_fields by (simp add: example_batch_def)
  have b5: "steps_per_task example_config
      \<le> main_steps_since_change fresh_trainer + steps_per_epoch example_config"
    unfolding fresh_trainer_fields by (simp add: example_config_def)
  have b: "list_all (\<lambda>f. f = None) (fisher_matrices fresh_trainer) \<and>
    length (fisher_matrices fresh_trainer) = length (old_params_list fresh_trainer) \<and>
    distinct (map fst (named_parameters example_policy_ops (policy fresh_trainer))) \<and>
    zip (obs (fst ((\<lambda>b. (b, b)) (buffer fresh_trainer))))
      (act (fst ((\<lambda>b. (b, b)) (buffer fresh_trainer)))) \<noteq> [] \<and>
    steps_per_task example_config
      \<le> main_steps_since_change fresh_trainer + steps_per_epoch example_config \<and>
    task_switch example_policy_ops (\<lambda>b. (b, b)) example_config fresh_trainer = Inr tr'"
    using b1 b2 b3 b4 b5 sw by (intro conjI)
  have one: "ewc_loss [None, None, None] [None, None, None] [(''w'', [1])] = Inr 0"
    by (rule ewc_penalty_zero_until_moved[THEN conjunct1, THEN mp, OF a])
  have two: "ewc_loss (fisher_matrices tr') (old_params_list tr')
        (named_parameters example_policy_ops (policy tr')) = Inr 0"
    by (rule ewc_penalty_zero_until_moved[THEN conjunct2, THEN conjunct1, THEN mp, OF b])
  from one two sw show ?thesis by (intro conjI exI[of _ tr'])
qed

text \<open>
  The counterexample to the claim as stated: the recorded gradients are 2 and -2 (so the
  Fisher weight is 4), and the penalty at the first gradient step after the snapshot is
  0, not positive.
\<close>

theorem ewc_penalty_not_positive_after_snapshot:
  "grad_log_prob example_policy_ops 1 1 3 ''w'' = [2] \<and>
   (\<exists>tr'. task_switch example_policy_ops (\<lambda>b. (b, b)) example_config fresh_trainer = Inr tr' \<and>
      fisher_matrices tr' ! 0 = Some [(''w'', [4])] \<and>
      ewc_loss (fisher_matrices tr') (old_params_list tr')
        (named_parameters example_policy_ops (policy tr')) = Inr 0 \<and>
      \<not> (\<exists>v. ewc_loss (fisher_matrices tr') (old_params_list tr')
                (named_parameters example_policy_ops (policy tr')) = Inr v \<and> 0 < v))"
proof -
  let ?tr = "\<lparr>policy = 1::real, buffer = example_batch,
      fisher_matrices = [Some [(''w'', [4])], None, None],
      old_params_list = [Some [(''w'', [1])], None, None],
      current_task_index = 1, main_steps_since_change = 0, task_switches = 1\<rparr>"
  have np: "named_parameters example_policy_ops 1 = [(''w'', [1])]"
    by (simp add: example_policy_ops_def)
  have g: "grad_log_prob example_policy_ops 1 1 3 ''w'' = [2]"
    by (simp add: example_policy_ops_def)
  have e: "ewc_loss [Some [(''w'', [4])], None, None] [Some [(''w'', [1])], None, None]
             [(''w'', [1])] = Inr 0"
    by (simp add: ewc_loss_def dict_get_def weighted_sq_dist_def square_def)
  have r1: "fisher_matrices ?tr ! 0 = Some [(''w'', [4])]" by simp
  have r2: "ewc_loss (fisher_matrices ?tr) (old_params_list ?tr)
        (named_parameters example_policy_ops (policy ?tr)) = Inr 0"
    by (simp add: np e)
  have r3: "\<not> (\<exists>v. ewc_loss (fisher_matrices ?tr) (old_params_list ?tr)
                (named_parameters example_policy_ops (policy ?tr)) = Inr v \<and> 0 < v)"
    by (simp add: np e)
  show ?thesis
    by (intro conjI exI[of _ ?tr]; (rule g fresh_switch r1 r2 r3))
qed

subsection \<open>Anchors are copies\<close>

lemma update_fresh_key:
  "name \<notin> fst ` set d \<Longrightarrow> AList.update name v d = d @ [(name, v)]"
  by (induction d) auto

lemma save_old_params_heap_fold:
  assumes "distinct (map fst ps)" "fst ` set ps \<inter> fst ` set d0 = {}"
    and "\<forall>x \<in> set ps. snd x < next_free h0"
  shows "\<exists>new h1. fold (\<lambda>(name, param) (d, h'). let (a, h'') = clone h' param in (AList.update name a d, h''))
                    ps (d0, h0) = (d0 @ new, h1) \<and>
           map fst new = map fst ps \<and>
           map (\<lambda>x. cells h1 (snd x)) new = map (\<lambda>x. cells h0 (snd x)) ps \<and>
           (\<forall>x \<in> set new. next_free h0 \<le> snd x \<and> snd x < next_free h1) \<and>
           next_free h0 \<le> next_free h1 \<and>
           (\<forall>a < next_free h0. cells h1 a = cells h0 a)"
  using assms
proof (induction ps arbitrary: d0 h0)
  case Nil
  then show ?case by simp
next
  case (Cons x ps)
  obtain n a where x: "x = (n, a)" by (cases x) auto
  let ?nf = "next_free h0"
  let ?h1 = "h0\<lparr>cells := (cells h0)(?nf := cells h0 a), next_free := Suc ?nf\<rparr>"
  let ?d1 = "d0 @ [(n, ?nf)]"
  from Cons.prems x have fresh: "n \<notin> fst ` set d0" and a: "a < ?nf"
    and d: "distinct (map fst ps)" and nps: "n \<notin> fst ` set ps"
    and disj: "fst ` set ps \<inter> fst ` set d0 = {}"
    and below: "\<forall>x \<in> set ps. snd x < ?nf"
    by auto
  have step: "fold (\<lambda>(name, param) (d, h'). let (a, h'') = clone h' param in (AList.update name a d, h''))
                 (x # ps) (d0, h0) =
              fold (\<lambda>(name, param) (d, h'). let (a, h'') = clone h' param in (AList.update name a d, h''))
                 ps (?d1, ?h1)"
    by (simp add: x clone_def update_fresh_key[OF fresh])
  have p2: "fst ` set ps \<inter> fst ` set ?d1 = {}" using disj nps by auto
  have p3: "\<forall>x \<in> set ps. snd x < next_free ?h1" using below by auto
  from Cons.IH[OF d p2 p3] obtain new h2 where
    r: "fold (\<lambda>(name, param) (d, h'). let (a, h'') = clone h' param in (AList.update name a d, h''))
          ps (?d1, ?h1) = (?d1 @ new, h2)"
    and names: "map fst new = map fst ps"
    and vals: "map (\<lambda>x. cells h2 (snd x)) new = map (\<lambda>x. cells ?h1 (snd x)) ps"
    and range: "\<forall>x \<in> set new. next_free ?h1 \<le> snd x \<and> snd x < next_free h2"
    and mono: "next_free ?h1 \<le> next_free h2"
    and keep: "\<forall>a < next_free ?h1. cells h2 a = cells ?h1 a"
    by blast
  have vals0: "map (\<lambda>x. cells ?h1 (snd x)) ps = map (\<lambda>x. cells h0 (snd x)) ps"
    using below by (intro map_cong) auto
  have head: "cells h2 ?nf = cells h0 a" using keep by simp
  have "fold (\<lambda>(name, param) (d, h'). let (a, h'') = clone h' param in (AList.update name a d, h''))
          (x # ps) (d0, h0) = (d0 @ ((n, ?nf) # new), h2)"
    using step r by simp
  moreover have "map fst ((n, ?nf) # new) = map fst (x # ps)" using names x by simp
  moreover have "map (\<lambda>x. cells h2 (snd x)) ((n, ?nf) # new) = map (\<lambda>x. cells h0 (snd x)) (x # ps)"
    using vals vals0 head x by simp
  moreover have "\<forall>y \<in> set ((n, ?nf) # new). ?nf \<le> snd y \<and> snd y < next_free h2"
    using range mono by auto
  moreover have "?nf \<le> next_free h2" using mono by simp
  moreover have "\<forall>b < ?nf. cells h2 b = cells h0 b" using keep by simp
  ultimately show ?case by blast
qed

lemma deref_eq:
  assumes "map fst xs = map fst ys" "map (\<lambda>x. cells h1 (snd x)) xs = map (\<lambda>x. cells h0 (snd x)) ys"
  shows "deref h1 xs = deref h0 ys"
proof -
  have len: "length xs = length ys" using assms(1) by (metis length_map)
  show ?thesis
    unfolding deref_def
  proof (rule nth_equalityI)
    show "length (map (\<lambda>(name, a). (name, cells h1 a)) xs) = length (map (\<lambda>(name, a). (name, cells h0 a)) ys)"
      using len by simp
  next
    fix i assume "i < length (map (\<lambda>(name, a). (name, cells h1 a)) xs)"
    then have i: "i < length xs" "i < length ys" using len by simp_all
    have "fst (xs ! i) = fst (ys ! i)"
      using assms(1) i by (metis nth_map)
    moreover have "cells h1 (snd (xs ! i)) = cells h0 (snd (ys ! i))"
      using assms(2) i by (metis (no_types, lifting) nth_map)
    ultimately show "map (\<lambda>(name, a). (name, cells h1 a)) xs ! i = map (\<lambda>(name, a). (name, cells h0 a)) ys ! i"
      using i by (simp add: case_prod_beta)
  qed
qed

lemma writes_keep_cell:
  assumes "\<forall>w \<in> set ws. fst w \<noteq> b"
  shows "cells (fold (\<lambda>w h. write_in_place h w) ws h) b = cells h b"
  using assms by (induction ws arbitrary: h) (simp_all add: write_in_place_def)

lemma writes_keep_next_free:
  "next_free (fold (\<lambda>w h. write_in_place h w) ws h) = next_free h"
  by (induction ws arbitrary: h) (simp_all add: write_in_place_def)

lemma save_old_params_heap_result:
  assumes "distinct (map fst model)" "allocated h model"
  shows "\<exists>d h'. save_old_params_heap h model = (d, h') \<and>
           map fst d = map fst model \<and>
           map (\<lambda>x. cells h' (snd x)) d = map (\<lambda>x. cells h (snd x)) model \<and>
           (\<forall>x \<in> set d. next_free h \<le> snd x \<and> snd x < next_free h') \<and>
           next_free h \<le> next_free h' \<and>
           (\<forall>a < next_free h. cells h' a = cells h a)"
proof -
  have below: "\<forall>x \<in> set model. snd x < next_free h"
    using assms(2) by (auto simp: allocated_def list_all_iff)
  from save_old_params_heap_fold[OF assms(1) _ below, of "[]"]
  show ?thesis by (simp add: save_old_params_heap_def)
qed

text \<open>
  Claim C8. A snapshot of allocated parameters with distinct names holds, name by name,
  the values that the live parameters have at that instant, in cells of its own: the
  cells of the anchors are new (none of them is a cell that was in use, so none is a
  cell of a live parameter), and taking the snapshot changes no cell that was in use
  (so it changes no earlier anchor either). Whatever is written afterwards into the
  cells of the live parameters, the anchors still hold the values of the snapshot.
\<close>

theorem anchor_snapshot_independent:
  assumes "distinct (map fst model)" and "allocated h model"
  shows "\<exists>d h'. save_old_params_heap h model = (d, h') \<and>
           deref h' d = deref h model \<and>
           deref h' d = save_old_params (deref h model) \<and>
           snd ` set d \<inter> snd ` set model = {} \<and>
           (\<forall>x \<in> set d. next_free h \<le> snd x) \<and>
           (\<forall>a < next_free h. cells h' a = cells h a) \<and>
           (\<forall>ws. writes_to model ws \<longrightarrow>
              deref (fold (\<lambda>w h. write_in_place h w) ws h') d = deref h model)"
proof -
  from save_old_params_heap_result[OF assms] obtain d h' where
    r: "save_old_params_heap h model = (d, h')"
    and names: "map fst d = map fst model"
    and vals: "map (\<lambda>x. cells h' (snd x)) d = map (\<lambda>x. cells h (snd x)) model"
    and range: "\<forall>x \<in> set d. next_free h \<le> snd x \<and> snd x < next_free h'"
    and keep: "\<forall>a < next_free h. cells h' a = cells h a"
    by blast
  have below: "\<forall>x \<in> set model. snd x < next_free h"
    using assms(2) by (auto simp: allocated_def list_all_iff)
  have eq: "deref h' d = deref h model" by (rule deref_eq[OF names vals])
  have dm: "distinct (map fst (deref h model))"
    using assms(1) by (simp add: deref_def comp_def case_prod_beta)
  have fold_id: "fold (\<lambda>(name, param) d. AList.update name param d) ps d0 = d0 @ ps"
    if "distinct (map fst ps)" "fst ` set ps \<inter> fst ` set d0 = {}" for ps d0 :: param_dict
    using that
  proof (induction ps arbitrary: d0)
    case Nil
    then show ?case by simp
  next
    case (Cons x ps)
    obtain n v where x: "x = (n, v)" by (cases x) auto
    from Cons.prems x have "n \<notin> fst ` set d0" "distinct (map fst ps)"
      "fst ` set ps \<inter> fst ` set (d0 @ [(n, v)]) = {}" by auto
    with Cons.IH[of "d0 @ [(n, v)]"] show ?case by (simp add: x update_fresh_key)
  qed
  have sv: "save_old_params (deref h model) = deref h model"
    using fold_id[OF dm, of "[]"] by (simp add: save_old_params_def)
  have disj: "snd ` set d \<inter> snd ` set model = {}"
    using range below by fastforce
  have after: "deref (fold (\<lambda>w h. write_in_place h w) ws h') d = deref h model"
    if w: "writes_to model ws" for ws
  proof -
    have "map (\<lambda>x. cells (fold (\<lambda>w h. write_in_place h w) ws h') (snd x)) d =
          map (\<lambda>x. cells h' (snd x)) d"
    proof (rule map_cong[OF refl])
      fix x assume x: "x \<in> set d"
      have "\<forall>w \<in> set ws. fst w \<noteq> snd x"
      proof
        fix w assume "w \<in> set ws"
        with that have "fst w \<in> snd ` set model" by (auto simp: writes_to_def list_all_iff)
        with below have "fst w < next_free h" by auto
        with range x show "fst w \<noteq> snd x" by fastforce
      qed
      then show "cells (fold (\<lambda>w h. write_in_place h w) ws h') (snd x) = cells h' (snd x)"
        by (rule writes_keep_cell)
    qed
    with vals have "map (\<lambda>x. cells (fold (\<lambda>w h. write_in_place h w) ws h') (snd x)) d =
          map (\<lambda>x. cells h (snd x)) model" by simp
    then show ?thesis by (rule deref_eq[OF names])
  qed
  show ?thesis
    using r eq sv disj range keep after by (intro exI[of _ d] exI[of _ h']) simp
qed

theorem anchor_snapshot_independent_witness:
  "save_old_params_heap example_heap [(''w'', 0)] =
     ([(''w'', 1)], example_heap\<lparr>cells := (cells example_heap)(1 := [1, 2]), next_free := 2\<rparr>) \<and>
   deref (write_in_place (snd (save_old_params_heap example_heap [(''w'', 0)])) (0, [9, 9]))
     (fst (save_old_params_heap example_heap [(''w'', 0)])) = [(''w'', [1, 2])] \<and>
   deref (write_in_place (snd (save_old_params_heap example_heap [(''w'', 0)])) (0, [9, 9]))
     [(''w'', 0)] = [(''w'', [9, 9])]"
proof -
  have d: "distinct (map fst [(''w'', 0::nat)])" by simp
  have a: "allocated example_heap [(''w'', 0)]" by (simp add: allocated_def example_heap_def)
  have s: "save_old_params_heap example_heap [(''w'', 0)] =
     ([(''w'', 1)], example_heap\<lparr>cells := (cells example_heap)(1 := [1, 2]), next_free := 2\<rparr>)"
    by (simp add: save_old_params_heap_def clone_def example_heap_def)
  have w: "writes_to [(''w'', 0)] [(0, [9, 9])]" by (simp add: writes_to_def)
  from anchor_snapshot_independent[OF d a] obtain dd h' where
    r: "save_old_params_heap example_heap [(''w'', 0)] = (dd, h')"
    and k: "\<forall>ws. writes_to [(''w'', 0)] ws \<longrightarrow>
              deref (fold (\<lambda>w h. write_in_place h w) ws h') dd = deref example_heap [(''w'', 0)]"
    by blast
  from k w have "deref (fold (\<lambda>w h. write_in_place h w) [(0, [9, 9])] h') dd
                   = deref example_heap [(''w'', 0)]" by blast
  then have "deref (write_in_place h' (0, [9, 9])) dd = [(''w'', [1, 2])]"
    by (simp add: deref_def example_heap_def)
  then have one: "deref (write_in_place (snd (save_old_params_heap example_heap [(''w'', 0)])) (0, [9, 9]))
     (fst (save_old_params_heap example_heap [(''w'', 0)])) = [(''w'', [1, 2])]"
    unfolding r by simp
  have two: "deref (write_in_place (snd (save_old_params_heap example_heap [(''w'', 0)])) (0, [9, 9]))
     [(''w'', 0)] = [(''w'', [9, 9])]"
    by (simp add: s deref_def write_in_place_def)
  from s one two show ?thesis by (intro conjI)
qed

subsection \<open>Epochs per task\<close>

lemma ceil_div_le_iff:
  fixes S T m :: int
  assumes "0 < S"
  shows "(T \<le> m * S) = ((T + S - 1) div S \<le> m)"
proof -
  define q where "q = (T + S - 1) div S"
  define r where "r = (T + S - 1) mod S"
  have eq: "T + S - 1 = q * S + r" by (simp add: q_def r_def)
  have r: "0 \<le> r" "r < S" using assms by (simp_all add: r_def)
  show ?thesis
  proof
    assume le: "T \<le> m * S"
    show "(T + S - 1) div S \<le> m"
    proof (rule ccontr)
      assume "\<not> (T + S - 1) div S \<le> m"
      then have "m + 1 \<le> q" by (simp add: q_def)
      then have "(m + 1) * S \<le> q * S" using assms by (intro mult_right_mono) simp_all
      then have "m * S + S \<le> q * S" by (simp add: algebra_simps)
      with eq r le show False by linarith
    qed
  next
    assume "(T + S - 1) div S \<le> m"
    then have "q \<le> m" by (simp add: q_def)
    then have "q * S \<le> m * S" using assms by (intro mult_right_mono) simp_all
    with eq r show "T \<le> m * S" by linarith
  qed
qed

lemma epochs_per_task_pos:
  assumes "0 < steps_per_epoch cfg" "0 < steps_per_task cfg"
  shows "0 < epochs_per_task cfg"
    and "(steps_per_task cfg \<le> int m * steps_per_epoch cfg) = (epochs_per_task cfg \<le> m)"
proof -
  let ?S = "steps_per_epoch cfg" and ?T = "steps_per_task cfg"
  have iff: "(?T \<le> int m * ?S) = ((?T + ?S - 1) div ?S \<le> int m)" for m
    by (rule ceil_div_le_iff[OF assms(1)])
  have "\<not> (?T \<le> int 0 * ?S)" using assms(2) by simp
  then have "\<not> ((?T + ?S - 1) div ?S \<le> 0)" using iff[of 0] by simp
  then show "0 < epochs_per_task cfg" by (simp add: epochs_per_task_def)
  show "(?T \<le> int m * ?S) = (epochs_per_task cfg \<le> m)"
    unfolding iff epochs_per_task_def by linarith
qed

subsection \<open>The regularizer's clock\<close>

lemma task_switch_clock:
  assumes "task_switch ops get cfg tr = Inr tr'"
  shows "clock_of tr' =
           (if steps_per_task cfg \<le> main_steps_since_change tr + steps_per_epoch cfg
            then ((current_task_index tr + 1) mod length (tasks cfg), 0, task_switches tr + 1)
            else (current_task_index tr, main_steps_since_change tr + steps_per_epoch cfg,
                  task_switches tr))"
proof (cases "steps_per_task cfg \<le> main_steps_since_change tr + steps_per_epoch cfg")
  case True
  from task_switch_fires[OF True assms] show ?thesis using True by (auto simp: clock_of_def)
next
  case False
  from assms task_switch_waits[OF False, of ops get] show ?thesis
    using False by (auto simp: clock_of_def)
qed

lemma update_and_switch_clock:
  assumes "update_and_switch ops uops get cfg tr = Inr tr'"
  shows "clock_of tr' =
           (if steps_per_task cfg \<le> main_steps_since_change tr + steps_per_epoch cfg
            then ((current_task_index tr + 1) mod length (tasks cfg), 0, task_switches tr + 1)
            else (current_task_index tr, main_steps_since_change tr + steps_per_epoch cfg,
                  task_switches tr))"
proof -
  obtain data buf1 where g: "get (buffer tr) = (data, buf1)" by (cases "get (buffer tr)") auto
  from assms g obtain u where u: "ppo_update uops cfg data tr = Inr u"
    and sw: "task_switch ops get cfg (tr\<lparr>policy := u_policy u, buffer := buf1\<rparr>) = Inr tr'"
    by (auto simp: update_and_switch_def split: sum.splits)
  from task_switch_clock[OF sw] show ?thesis by simp
qed

lemma train_clock:
  assumes S: "0 < steps_per_epoch cfg" and T: "0 < steps_per_task cfg"
    and run: "train ops uops get collect cfg n (trainer_init cfg p b) = Inr tr'"
  shows "clock_of tr' =
           ((n div epochs_per_task cfg) mod length (tasks cfg),
            int (n mod epochs_per_task cfg) * steps_per_epoch cfg,
            n div epochs_per_task cfg)"
  using run
proof (induction n arbitrary: tr')
  case 0
  then show ?case by (auto simp: clock_of_def trainer_init_def)
next
  case (Suc n)
  let ?K = "epochs_per_task cfg"
  from Suc.prems obtain tr1 where t1: "train ops uops get collect cfg n (trainer_init cfg p b) = Inr tr1"
    and st: "update_and_switch ops uops get cfg (tr1\<lparr>buffer := collect n (policy tr1) (buffer tr1)\<rparr>) = Inr tr'"
    by (auto split: sum.splits)
  from Suc.IH[OF t1] have c1: "current_task_index tr1 = (n div ?K) mod length (tasks cfg)"
    "main_steps_since_change tr1 = int (n mod ?K) * steps_per_epoch cfg"
    "task_switches tr1 = n div ?K"
    by (simp_all add: clock_of_def)
  have Kpos: "0 < ?K" by (rule epochs_per_task_pos(1)[OF S T])
  have sum: "main_steps_since_change tr1 + steps_per_epoch cfg = int (Suc (n mod ?K)) * steps_per_epoch cfg"
    by (simp add: c1 algebra_simps)
  have fire: "(steps_per_task cfg \<le> main_steps_since_change tr1 + steps_per_epoch cfg)
                = (?K \<le> Suc (n mod ?K))"
    unfolding sum by (rule epochs_per_task_pos(2)[OF S T])
  have lt: "n mod ?K < ?K" using Kpos by simp
  from update_and_switch_clock[OF st] have cl: "clock_of tr' =
           (if ?K \<le> Suc (n mod ?K)
            then ((current_task_index tr1 + 1) mod length (tasks cfg), 0, task_switches tr1 + 1)
            else (current_task_index tr1, main_steps_since_change tr1 + steps_per_epoch cfg,
                  task_switches tr1))"
    using fire by simp
  show ?case
  proof (cases "?K \<le> Suc (n mod ?K)")
    case True
    with lt have e: "Suc (n mod ?K) = ?K" by simp
    have m: "Suc n mod ?K = 0" by (simp add: mod_Suc e)
    have d: "Suc n div ?K = Suc (n div ?K)" by (simp add: div_Suc m)
    show ?thesis using True cl c1 by (simp add: m d mod_Suc_eq)
  next
    case False
    then have e: "Suc (n mod ?K) \<noteq> ?K" by simp
    have m: "Suc n mod ?K = Suc (n mod ?K)" using e by (simp add: mod_Suc)
    have d: "Suc n div ?K = n div ?K" using m by (simp add: div_Suc)
    show ?thesis using False cl c1 sum by (simp add: m d)
  qed
qed

lemma epochs_per_task_dvd:
  assumes S: "0 < steps_per_epoch cfg" and T: "0 < steps_per_task cfg"
    and dvd: "steps_per_epoch cfg dvd steps_per_task cfg"
  shows "int n * steps_per_epoch cfg div steps_per_task cfg = int (n div epochs_per_task cfg)"
proof -
  let ?S = "steps_per_epoch cfg" and ?T = "steps_per_task cfg" and ?K = "epochs_per_task cfg"
  from dvd obtain q where q: "?T = ?S * q" by (auto simp: dvd_def)
  have qpos: "0 < q" using S T q by (simp add: zero_less_mult_iff)
  have "(?T + ?S - 1) div ?S = q"
  proof -
    have "(?T + ?S - 1) div ?S = (q * ?S + (?S - 1)) div ?S" by (simp add: q algebra_simps)
    also have "\<dots> = q + (?S - 1) div ?S" using S by simp
    also have "\<dots> = q" using S by (simp add: div_pos_pos_trivial)
    finally show ?thesis .
  qed
  then have K: "int ?K = q" using qpos by (simp add: epochs_per_task_def)
  have "int n * ?S div ?T = int n * ?S div (int ?K * ?S)" by (simp add: q K mult.commute)
  also have "\<dots> = int n div int ?K" using S by simp
  also have "\<dots> = int (n div ?K)" by (simp add: zdiv_int)
  finally show ?thesis .
qed

subsection \<open>Training returns\<close>

lemma pass_loop_total:
  assumes "\<forall>i p. \<exists>p'. rp i p = Inr p'"
  shows "\<exists>st'. pass_loop rp kl target n st = Inr st'"
proof (induction n arbitrary: st)
  case 0
  then show ?case by simp
next
  case (Suc n)
  from assms obtain p' where p': "rp (update_counts st) (u_policy st) = Inr p'" by blast
  show ?case
  proof (cases "kl p' > target")
    case True
    then show ?thesis using p' by (simp add: Let_def)
  next
    case False
    then show ?thesis using p' Suc.IH by (simp add: Let_def)
  qed
qed

lemma py_index_total:
  assumes "- int n \<le> t" "t < int n"
  shows "\<exists>j < n. py_index n t = Inr j"
  using assms by (auto simp: py_index_def)

lemma task_switch_total:
  assumes "well_formed cfg tr"
  shows "\<exists>tr'. task_switch ops get cfg tr = Inr tr' \<and> well_formed cfg tr'"
proof (cases "steps_per_task cfg \<le> main_steps_since_change tr + steps_per_epoch cfg")
  case False
  then show ?thesis using assms by (simp add: task_switch_waits well_formed_def)
next
  case True
  let ?n = "length (tasks cfg)"
  let ?t = "tasks cfg ! current_task_index tr"
  from assms have i: "current_task_index tr < ?n" and lf: "length (fisher_matrices tr) = ?n"
    and lo: "length (old_params_list tr) = ?n"
    and all: "list_all (\<lambda>t. - int ?n \<le> t \<and> t < int ?n) (tasks cfg)"
    by (simp_all add: well_formed_def)
  from all i have "- int ?n \<le> ?t" "?t < int ?n" by (auto simp: list_all_length)
  from py_index_total[OF this] obtain j where j: "j < ?n" "py_index ?n ?t = Inr j" by blast
  obtain data buf' where g: "get (buffer tr) = (data, buf')" by (cases "get (buffer tr)") auto
  have "task_switch ops get cfg tr =
          Inr (tr\<lparr>buffer := buf',
                 fisher_matrices := (fisher_matrices tr)[j := Some (compute_fisher_info ops data (policy tr))],
                 old_params_list := (old_params_list tr)[j := Some (save_old_params (named_parameters ops (policy tr)))],
                 current_task_index := (current_task_index tr + 1) mod ?n,
                 main_steps_since_change := 0,
                 task_switches := task_switches tr + 1\<rparr>)"
    using True i j by (simp add: task_switch_def Let_def list_get_def list_set_def g lf lo)
  moreover have "(current_task_index tr + 1) mod ?n < ?n"
  proof -
    have "0 < ?n" using i by (cases "tasks cfg") auto
    then show ?thesis by (rule mod_less_divisor)
  qed
  ultimately show ?thesis using lf lo all by (simp add: well_formed_def)
qed

lemma train_total:
  assumes "\<forall>i d f g p. \<exists>p'. minibatch_pass uops i d f g p = Inr p'"
    and "well_formed cfg tr"
  shows "\<exists>tr'. train ops uops get collect cfg n tr = Inr tr' \<and> well_formed cfg tr'"
proof (induction n)
  case 0
  then show ?case using assms(2) by simp
next
  case (Suc n)
  then obtain tr1 where t1: "train ops uops get collect cfg n tr = Inr tr1"
    and w1: "well_formed cfg tr1" by blast
  let ?tr = "tr1\<lparr>buffer := collect n (policy tr1) (buffer tr1)\<rparr>"
  obtain data buf1 where g: "get (buffer ?tr) = (data, buf1)" by (cases "get (buffer ?tr)") auto
  have "\<exists>u. ppo_update uops cfg data ?tr = Inr u"
    unfolding ppo_update_def by (rule pass_loop_total) (use assms(1) in blast)
  then obtain u where u: "ppo_update uops cfg data ?tr = Inr u" by blast
  have "well_formed cfg (?tr\<lparr>policy := u_policy u, buffer := buf1\<rparr>)"
    using w1 by (simp add: well_formed_def)
  from task_switch_total[OF this, of ops get] obtain tr' where
    "task_switch ops get cfg (?tr\<lparr>policy := u_policy u, buffer := buf1\<rparr>) = Inr tr'"
    "well_formed cfg tr'" by blast
  then have "update_and_switch ops uops get cfg ?tr = Inr tr' \<and> well_formed cfg tr'"
    using g u by (simp add: update_and_switch_def)
  then show ?case using t1 by simp
qed

lemma well_formed_init:
  assumes "tasks cfg \<noteq> []"
    and "list_all (\<lambda>t. - int (length (tasks cfg)) \<le> t \<and> t < int (length (tasks cfg))) (tasks cfg)"
  shows "well_formed cfg (trainer_init cfg p b)"
  using assms by (simp add: well_formed_def trainer_init_def)

subsection \<open>Task switches after \<open>N\<close> epochs\<close>

text \<open>
  Claim C2, as amended. With \<open>S > 0\<close> steps per epoch and \<open>T > 0\<close> steps per task,
  after \<open>N\<close> completed epochs from the initial state the task index has advanced
  \<open>N div K\<close> times, where \<open>K\<close> is the number of epochs that one task takes (the least
  \<open>m\<close> with \<open>m * S \<ge> T\<close>, that is \<open>T / S\<close> rounded up); the index is that number
  modulo the number of tasks, and the counter holds the steps of the epochs since the
  last switch. When \<open>S\<close> divides \<open>T\<close> this is \<open>(N * S) div T\<close>.
\<close>

theorem task_index_advances:
  assumes "0 < steps_per_epoch cfg" and "0 < steps_per_task cfg"
    and "train ops uops get collect cfg n (trainer_init cfg p b) = Inr tr'"
  shows "task_switches tr' = n div epochs_per_task cfg \<and>
         current_task_index tr' = task_switches tr' mod length (tasks cfg) \<and>
         main_steps_since_change tr' = int (n mod epochs_per_task cfg) * steps_per_epoch cfg \<and>
         (\<forall>m. (steps_per_task cfg \<le> int m * steps_per_epoch cfg) = (epochs_per_task cfg \<le> m)) \<and>
         (steps_per_epoch cfg dvd steps_per_task cfg \<longrightarrow>
            int (task_switches tr') = int n * steps_per_epoch cfg div steps_per_task cfg)"
proof -
  from train_clock[OF assms] have c: "task_switches tr' = n div epochs_per_task cfg"
    "current_task_index tr' = (n div epochs_per_task cfg) mod length (tasks cfg)"
    "main_steps_since_change tr' = int (n mod epochs_per_task cfg) * steps_per_epoch cfg"
    by (simp_all add: clock_of_def)
  have k: "\<forall>m. (steps_per_task cfg \<le> int m * steps_per_epoch cfg) = (epochs_per_task cfg \<le> m)"
    using epochs_per_task_pos(2)[OF assms(1,2)] by blast
  have d: "steps_per_epoch cfg dvd steps_per_task cfg \<longrightarrow>
            int (task_switches tr') = int n * steps_per_epoch cfg div steps_per_task cfg"
    using epochs_per_task_dvd[OF assms(1,2)] c(1) by simp
  from c k d show ?thesis by simp
qed

lemma example_config_well_formed:
  "well_formed example_config (trainer_init example_config (1::real) example_batch)"
  by (rule well_formed_init) (simp_all add: example_config_def)

lemma idle_passes: "\<forall>i d f g p. \<exists>p'. minibatch_pass idle_update_ops i d f g p = Inr p'"
  by (simp add: idle_update_ops_def)

theorem task_index_advances_witness:
  "\<exists>tr'. train example_policy_ops idle_update_ops (\<lambda>b. (b, b)) same_batch
            (example_config\<lparr>steps_per_task := 4\<rparr>) 4
            (trainer_init (example_config\<lparr>steps_per_task := 4\<rparr>) 1 example_batch) = Inr tr' \<and>
         task_switches tr' = 2 \<and> current_task_index tr' = 2 \<and> main_steps_since_change tr' = 0"
proof -
  let ?cfg = "example_config\<lparr>steps_per_task := 4\<rparr>"
  have wf: "well_formed ?cfg (trainer_init ?cfg (1::real) example_batch)"
    by (rule well_formed_init) (simp_all add: example_config_def)
  from train_total[OF idle_passes wf, of example_policy_ops "\<lambda>b. (b, b)" same_batch 4]
  obtain tr' where run: "train example_policy_ops idle_update_ops (\<lambda>b. (b, b)) same_batch ?cfg 4
            (trainer_init ?cfg 1 example_batch) = Inr tr'" by blast
  have S: "0 < steps_per_epoch ?cfg" and T: "0 < steps_per_task ?cfg"
    by (simp_all add: example_config_def)
  have K: "epochs_per_task ?cfg = 2" by (simp add: epochs_per_task_def example_config_def)
  from task_index_advances[OF S T run] have "task_switches tr' = 4 div epochs_per_task ?cfg"
    "current_task_index tr' = task_switches tr' mod length (tasks ?cfg)"
    "main_steps_since_change tr' = int (4 mod epochs_per_task ?cfg) * steps_per_epoch ?cfg"
    by simp_all
  then have "task_switches tr' = 2 \<and> current_task_index tr' = 2 \<and> main_steps_since_change tr' = 0"
    unfolding K by (simp add: example_config_def)
  with run show ?thesis by blast
qed

text \<open>
  The counterexample to the claim as stated: with \<open>S = 2\<close> and \<open>T = 3\<close> a task takes
  two epochs (the counter goes 2, 4, and starts again from 0), so after three epochs the
  index has advanced once, while \<open>(3 * 2) div 3 = 2\<close>.
\<close>

theorem task_index_not_floor:
  "\<exists>tr'. train example_policy_ops idle_update_ops (\<lambda>b. (b, b)) same_batch example_config 3
            (trainer_init example_config 1 example_batch) = Inr tr' \<and>
         task_switches tr' = 1 \<and> current_task_index tr' = 1 \<and>
         (3 * steps_per_epoch example_config) div steps_per_task example_config = 2"
proof -
  from train_total[OF idle_passes example_config_well_formed, of example_policy_ops "\<lambda>b. (b, b)" same_batch 3]
  obtain tr' where run: "train example_policy_ops idle_update_ops (\<lambda>b. (b, b)) same_batch example_config 3
            (trainer_init example_config 1 example_batch) = Inr tr'" by blast
  have S: "0 < steps_per_epoch example_config" and T: "0 < steps_per_task example_config"
    by (simp_all add: example_config_def)
  have K: "epochs_per_task example_config = 2" by (simp add: epochs_per_task_def example_config_def)
  from train_clock[OF S T run] have "task_switches tr' = 1 \<and> current_task_index tr' = 1"
    unfolding K by (simp add: clock_of_def example_config_def)
  moreover have "(3 * steps_per_epoch example_config) div steps_per_task example_config = 2"
    by (simp add: example_config_def)
  ultimately show ?thesis using run by blast
qed

subsection \<open>The data of the Fisher estimate\<close>

text \<open>
  One epoch whose switch fires, for any \<open>get\<close>: the update runs on what the first
  call returns, and the record is computed, with the policy of the update, from what the
  second call returns.
\<close>

lemma update_and_switch_fires:
  assumes fires: "steps_per_task cfg \<le> main_steps_since_change tr + steps_per_epoch cfg"
    and run: "update_and_switch ops uops get cfg tr = Inr tr'"
  shows "\<exists>u t j. ppo_update uops cfg (fst (get (buffer tr))) tr = Inr u \<and>
           list_get (tasks cfg) (current_task_index tr) = Inr t \<and>
           py_index (length (fisher_matrices tr)) t = Inr j \<and> j < length (fisher_matrices tr) \<and>
           policy tr' = u_policy u \<and>
           buffer tr' = snd (get (snd (get (buffer tr)))) \<and>
           fisher_matrices tr' = (fisher_matrices tr)
             [j := Some (compute_fisher_info ops (fst (get (snd (get (buffer tr))))) (u_policy u))]"
proof -
  obtain data buf1 where g: "get (buffer tr) = (data, buf1)" by (cases "get (buffer tr)") auto
  from run g obtain u where u: "ppo_update uops cfg data tr = Inr u"
    and sw: "task_switch ops get cfg (tr\<lparr>policy := u_policy u, buffer := buf1\<rparr>) = Inr tr'"
    by (auto simp: update_and_switch_def split: sum.splits)
  have f: "steps_per_task cfg \<le> main_steps_since_change (tr\<lparr>policy := u_policy u, buffer := buf1\<rparr>)
             + steps_per_epoch cfg"
    using fires by simp
  from task_switch_fires[OF f sw] obtain t j where
    "list_get (tasks cfg) (current_task_index tr) = Inr t"
    "j < length (fisher_matrices tr)" "py_index (length (fisher_matrices tr)) t = Inr j"
    "policy tr' = u_policy u" "buffer tr' = snd (get buf1)"
    "fisher_matrices tr' = (fisher_matrices tr)
             [j := Some (compute_fisher_info ops (fst (get buf1)) (u_policy u))]"
    by auto
  with u g show ?thesis by auto
qed

text \<open>A drained buffer yields the same epoch once more.\<close>

lemma buffer_get_again:
  "fst (buffer_get (snd (buffer_get b))) = fst (buffer_get b) \<and>
   snd (buffer_get (snd (buffer_get b))) = snd (buffer_get b)"
  by (simp add: buffer_get_def)

text \<open>
  Claim C1. At the end of an epoch whose switch counter reaches \<open>steps_per_task\<close>, the
  Fisher record stored in the slot of the current task id is the estimate computed, with
  the policy that the update produced, from the batch that the update drained from the
  buffer at line 314. The drain yields the stored epoch and resets the write position;
  line 449 drains the buffer once more and reads the same data, which is still in the
  storage when the epoch ends.
\<close>

theorem fisher_from_drained_batch:
  assumes "steps_per_task cfg \<le> main_steps_since_change tr + steps_per_epoch cfg"
    and "update_and_switch ops uops buffer_get cfg tr = Inr tr'"
  shows "\<exists>data u t j.
           data = fst (buffer_get (buffer tr)) \<and> data = stored (buffer tr) \<and>
           ppo_update uops cfg data tr = Inr u \<and> policy tr' = u_policy u \<and>
           list_get (tasks cfg) (current_task_index tr) = Inr t \<and>
           py_index (length (fisher_matrices tr)) t = Inr j \<and> j < length (fisher_matrices tr) \<and>
           fisher_matrices tr' ! j = Some (compute_fisher_info ops data (u_policy u)) \<and>
           stored (buffer tr') = data \<and> ptr (buffer tr') = 0"
proof -
  from update_and_switch_fires[OF assms] obtain u t j where
    u: "ppo_update uops cfg (fst (buffer_get (buffer tr))) tr = Inr u"
    and t: "list_get (tasks cfg) (current_task_index tr) = Inr t"
    and j: "py_index (length (fisher_matrices tr)) t = Inr j" "j < length (fisher_matrices tr)"
    and p: "policy tr' = u_policy u"
    and b: "buffer tr' = snd (buffer_get (snd (buffer_get (buffer tr))))"
    and fm: "fisher_matrices tr' = (fisher_matrices tr)
             [j := Some (compute_fisher_info ops
                           (fst (buffer_get (snd (buffer_get (buffer tr))))) (u_policy u))]"
    by blast
  have s: "fisher_matrices tr' ! j =
             Some (compute_fisher_info ops (fst (buffer_get (buffer tr))) (u_policy u))"
    unfolding fm using j(2) by (simp add: buffer_get_again)
  have d: "fst (buffer_get (buffer tr)) = stored (buffer tr)" by (simp add: buffer_get_def)
  have b': "stored (buffer tr') = fst (buffer_get (buffer tr))" "ptr (buffer tr') = 0"
    unfolding b by (simp_all add: buffer_get_def)
  from u t j p s d b' show ?thesis by blast
qed

lemma idle_update:
  "ppo_update idle_update_ops example_config data tr =
     Inr \<lparr>u_policy = policy tr, update_counts = 1, final_kl = Scalar 1, kl_evaluations = 1\<rparr>"
proof -
  let ?rp = "\<lambda>i. minibatch_pass idle_update_ops i data (fisher_matrices tr) (old_params_list tr)"
  let ?kl = "mean_kl idle_update_ops (policy tr) (obs data)"
  have kl: "?kl p = 1" for p by (simp add: idle_update_ops_def)
  have a: "(0::nat) < 1" by simp
  have b: "1 \<le> learning_iters example_config" by (simp add: example_config_def)
  have c: "after_passes ?rp 1 (policy tr) = Inr (policy tr)" by (simp add: idle_update_ops_def)
  have d: "?kl (policy tr) > target_kl example_config" by (simp add: kl example_config_def)
  have e: "\<forall>i. 0 < i \<and> i < 1 \<longrightarrow>
             (\<exists>p. after_passes ?rp i (policy tr) = Inr p \<and> \<not> ?kl p > target_kl example_config)"
    by auto
  from pass_loop_stops[OF a b c d e] show ?thesis
    unfolding ppo_update_def kl by simp
qed

lemma loaded_trainer_fields:
  "loaded_trainer =
     \<lparr>policy = 1, buffer = \<lparr>stored = example_batch, ptr = 2\<rparr>,
      fisher_matrices = [None, None, None], old_params_list = [None, None, None],
      current_task_index = 0, main_steps_since_change = 2, task_switches = 0\<rparr>"
  by (simp add: loaded_trainer_def trainer_init_def example_config_def numeral_3_eq_3)

lemma loaded_update_and_switch:
  "update_and_switch example_policy_ops idle_update_ops buffer_get example_config loaded_trainer =
     Inr \<lparr>policy = 1, buffer = \<lparr>stored = example_batch, ptr = 0\<rparr>,
      fisher_matrices = [Some [(''w'', [4])], None, None],
      old_params_list = [Some [(''w'', [1])], None, None],
      current_task_index = 1, main_steps_since_change = 0, task_switches = 1\<rparr>"
proof -
  have np: "named_parameters example_policy_ops 1 = [(''w'', [1])]"
    by (simp add: example_policy_ops_def)
  have sw: "task_switch example_policy_ops buffer_get example_config
     \<lparr>policy = 1, buffer = \<lparr>stored = example_batch, ptr = 0\<rparr>,
      fisher_matrices = [None, None, None], old_params_list = [None, None, None],
      current_task_index = 0, main_steps_since_change = 2, task_switches = 0\<rparr> =
     Inr \<lparr>policy = 1, buffer = \<lparr>stored = example_batch, ptr = 0\<rparr>,
      fisher_matrices = [Some [(''w'', [4])], None, None],
      old_params_list = [Some [(''w'', [1])], None, None],
      current_task_index = 1, main_steps_since_change = 0, task_switches = 1\<rparr>"
    by (simp add: task_switch_def example_config_def list_get_def buffer_get_def
        list_set_def py_index_def example_fisher np save_old_params_def Let_def)
  have u: "ppo_update idle_update_ops example_config example_batch loaded_trainer =
     Inr \<lparr>u_policy = 1, update_counts = 1, final_kl = Scalar 1, kl_evaluations = 1\<rparr>"
    by (simp add: idle_update loaded_trainer_fields)
  have g: "buffer_get (buffer loaded_trainer) = (example_batch, \<lparr>stored = example_batch, ptr = 0\<rparr>)"
    by (simp add: loaded_trainer_fields buffer_get_def)
  have tr: "loaded_trainer\<lparr>policy := 1, buffer := \<lparr>stored = example_batch, ptr = 0\<rparr>\<rparr> =
     \<lparr>policy = 1, buffer = \<lparr>stored = example_batch, ptr = 0\<rparr>,
      fisher_matrices = [None, None, None], old_params_list = [None, None, None],
      current_task_index = 0, main_steps_since_change = 2, task_switches = 0\<rparr>"
    by (simp add: loaded_trainer_fields)
  show ?thesis
    by (simp add: update_and_switch_def g u tr sw)
qed

theorem fisher_from_drained_batch_witness:
  "\<exists>tr'. update_and_switch example_policy_ops idle_update_ops buffer_get example_config
            loaded_trainer = Inr tr' \<and>
         fst (buffer_get (buffer loaded_trainer)) = example_batch \<and>
         fisher_matrices tr' ! 0 = Some (compute_fisher_info example_policy_ops example_batch 1) \<and>
         compute_fisher_info example_policy_ops example_batch 1 = [(''w'', [4])] \<and>
         stored (buffer tr') = example_batch \<and> ptr (buffer tr') = 0"
proof -
  let ?tr = "\<lparr>policy = 1::real, buffer = \<lparr>stored = example_batch, ptr = 0\<rparr>,
      fisher_matrices = [Some [(''w'', [4])], None, None],
      old_params_list = [Some [(''w'', [1])], None, None],
      current_task_index = 1, main_steps_since_change = 0, task_switches = 1\<rparr>"
  have fires: "steps_per_task example_config
                 \<le> main_steps_since_change loaded_trainer + steps_per_epoch example_config"
    by (simp add: loaded_trainer_fields example_config_def)
  have g: "fst (buffer_get (buffer loaded_trainer)) = example_batch"
    by (simp add: loaded_trainer_fields buffer_get_def)
  from fisher_from_drained_batch[OF fires loaded_update_and_switch] obtain u t j where
    u: "ppo_update idle_update_ops example_config (fst (buffer_get (buffer loaded_trainer)))
          loaded_trainer = Inr u"
    and t: "list_get (tasks example_config) (current_task_index loaded_trainer) = Inr t"
    and j: "py_index (length (fisher_matrices loaded_trainer)) t = Inr j"
    and f: "fisher_matrices ?tr ! j =
             Some (compute_fisher_info example_policy_ops
                     (fst (buffer_get (buffer loaded_trainer))) (u_policy u))"
    and b: "stored (buffer ?tr) = fst (buffer_get (buffer loaded_trainer))" "ptr (buffer ?tr) = 0"
    by blast
  have "t = 0" using t by (simp add: loaded_trainer_fields example_config_def list_get_def)
  then have j0: "j = 0" using j by (simp add: loaded_trainer_fields py_index_def)
  have up: "u_policy u = 1" using u by (auto simp: idle_update loaded_trainer_fields)
  have one: "fisher_matrices ?tr ! 0 = Some (compute_fisher_info example_policy_ops example_batch 1)"
    using f unfolding j0 up g by simp
  have two: "stored (buffer ?tr) = example_batch" using b(1) unfolding g .
  show ?thesis
    by (intro exI[of _ ?tr] conjI; (rule loaded_update_and_switch g one example_fisher two b(2)))
qed

end
